theory Spec2Isabelle
  imports Complex_Main "HOL-Library.Word" "HOL-Library.Signed_Division" "HOL-Library.Char_ord"
begin

unbundle bit_operations_syntax

section \<open>Machine arithmetic\<close>

subsection \<open>The C++ type int\<close>

text \<open>
  \<^verbatim>\<open>int\<close> is a 32-bit two's complement integer. Addition and multiplication are the
  word operations (they wrap around, as the compiled code does); \<^verbatim>\<open>/\<close> and \<^verbatim>\<open>%\<close>
  truncate towards zero and have no result for a zero divisor or for
  \<^verbatim>\<open>INT_MIN / -1\<close>.
\<close>

type_synonym cint = "32 word"

datatype error = DivisionByZero | DivisionOverflow | AssertionFailure

definition int_div :: "cint \<Rightarrow> cint \<Rightarrow> error + cint" where
  "int_div a b =
     (if b = 0 then Inl DivisionByZero
      else if a = - (2 ^ 31) \<and> b = - 1 then Inl DivisionOverflow
      else Inr (word_of_int (sint a sdiv sint b)))"

definition int_mod :: "cint \<Rightarrow> cint \<Rightarrow> error + cint" where
  "int_mod a b =
     (if b = 0 then Inl DivisionByZero
      else if a = - (2 ^ 31) \<and> b = - 1 then Inl DivisionOverflow
      else Inr (word_of_int (sint a smod sint b)))"

subsection \<open>The C++ type float\<close>

text \<open>
  \<^verbatim>\<open>float\<close> is IEEE 754 binary32. A finite value is represented by the real number
  it denotes, the two zeros being identified (every comparison of the language treats
  them as equal); the infinities and NaN are separate values. Every arithmetic
  operation computes the exact real result and rounds it to the nearest binary32
  value, ties to even (\<open>round32\<close>).
\<close>

datatype float32 = Finite real | PlusInfinity | MinusInfinity | NaN

text \<open>
  The exponent of the binade of \<open>x\<close>: the largest \<open>e\<close> in \<open>-125 .. 127\<close> with
  \<open>2 ^ e \<le> x\<close>, and \<open>-126\<close> when there is none (the lowest normal binade and the
  subnormal numbers).
\<close>

fun exponent_search :: "nat \<Rightarrow> real \<Rightarrow> int" where
  "exponent_search 0 x = - 126"
| "exponent_search (Suc n) x =
     (if 2 powi (int n - 125) \<le> x then int n - 125 else exponent_search n x)"

definition float_exponent :: "real \<Rightarrow> int" where
  "float_exponent x = exponent_search 253 \<bar>x\<bar>"

definition round_half_even :: "real \<Rightarrow> int" where
  "round_half_even q =
     (let f = \<lfloor>q\<rfloor>; d = q - of_int f
      in if d < 1 / 2 then f else if 1 / 2 < d then f + 1
         else if even f then f else f + 1)"

text \<open>
  A binary32 value in the binade of exponent \<open>e\<close> is an integer multiple of
  \<open>2 ^ (e - 23)\<close>. A result of magnitude \<open>2 ^ 128\<close> or more is an infinity.
\<close>

definition round_to_grid :: "real \<Rightarrow> real" where
  "round_to_grid x =
     of_int (round_half_even (x / 2 powi (float_exponent x - 23))) * 2 powi (float_exponent x - 23)"

definition round32 :: "real \<Rightarrow> float32" where
  "round32 x =
     (let r = round_to_grid x
      in if 2 ^ 128 \<le> r then PlusInfinity
         else if r \<le> - (2 ^ 128) then MinusInfinity
         else Finite r)"

fun flt :: "float32 \<Rightarrow> float32 \<Rightarrow> bool" where
  "flt NaN b = False"
| "flt a NaN = False"
| "flt (Finite x) (Finite y) = (x < y)"
| "flt a MinusInfinity = False"
| "flt PlusInfinity b = False"
| "flt MinusInfinity b = True"
| "flt a PlusInfinity = True"

fun fle :: "float32 \<Rightarrow> float32 \<Rightarrow> bool" where
  "fle NaN b = False"
| "fle a NaN = False"
| "fle (Finite x) (Finite y) = (x \<le> y)"
| "fle MinusInfinity b = True"
| "fle a PlusInfinity = True"
| "fle a MinusInfinity = False"
| "fle PlusInfinity b = False"

definition fgt :: "float32 \<Rightarrow> float32 \<Rightarrow> bool" where
  "fgt a b = flt b a"

definition fge :: "float32 \<Rightarrow> float32 \<Rightarrow> bool" where
  "fge a b = fle b a"

fun fneg :: "float32 \<Rightarrow> float32" where
  "fneg (Finite x) = Finite (- x)"
| "fneg PlusInfinity = MinusInfinity"
| "fneg MinusInfinity = PlusInfinity"
| "fneg NaN = NaN"

fun fabs :: "float32 \<Rightarrow> float32" where
  "fabs (Finite x) = Finite \<bar>x\<bar>"
| "fabs PlusInfinity = PlusInfinity"
| "fabs MinusInfinity = PlusInfinity"
| "fabs NaN = NaN"

fun fadd :: "float32 \<Rightarrow> float32 \<Rightarrow> float32" where
  "fadd NaN b = NaN"
| "fadd a NaN = NaN"
| "fadd (Finite x) (Finite y) = round32 (x + y)"
| "fadd PlusInfinity MinusInfinity = NaN"
| "fadd MinusInfinity PlusInfinity = NaN"
| "fadd PlusInfinity b = PlusInfinity"
| "fadd MinusInfinity b = MinusInfinity"
| "fadd a PlusInfinity = PlusInfinity"
| "fadd a MinusInfinity = MinusInfinity"

definition fsub :: "float32 \<Rightarrow> float32 \<Rightarrow> float32" where
  "fsub a b = fadd a (fneg b)"

text \<open>
  Multiplication and division. The model has one zero, which stands for \<open>+0\<close>: a
  division of a non-zero finite value by zero yields the infinity of the sign of the
  dividend. (The only division of the code at hand divides by a converted unsigned
  count, whose zero is \<open>+0\<close>.)
\<close>

fun fmul :: "float32 \<Rightarrow> float32 \<Rightarrow> float32" where
  "fmul NaN b = NaN"
| "fmul a NaN = NaN"
| "fmul (Finite x) (Finite y) = round32 (x * y)"
| "fmul (Finite x) PlusInfinity =
     (if x = 0 then NaN else if 0 < x then PlusInfinity else MinusInfinity)"
| "fmul (Finite x) MinusInfinity =
     (if x = 0 then NaN else if 0 < x then MinusInfinity else PlusInfinity)"
| "fmul PlusInfinity (Finite y) =
     (if y = 0 then NaN else if 0 < y then PlusInfinity else MinusInfinity)"
| "fmul MinusInfinity (Finite y) =
     (if y = 0 then NaN else if 0 < y then MinusInfinity else PlusInfinity)"
| "fmul PlusInfinity PlusInfinity = PlusInfinity"
| "fmul PlusInfinity MinusInfinity = MinusInfinity"
| "fmul MinusInfinity PlusInfinity = MinusInfinity"
| "fmul MinusInfinity MinusInfinity = PlusInfinity"

fun fdiv :: "float32 \<Rightarrow> float32 \<Rightarrow> float32" where
  "fdiv NaN b = NaN"
| "fdiv a NaN = NaN"
| "fdiv (Finite x) (Finite y) =
     (if y = 0 then (if x = 0 then NaN else if 0 < x then PlusInfinity else MinusInfinity)
      else round32 (x / y))"
| "fdiv (Finite x) PlusInfinity = Finite 0"
| "fdiv (Finite x) MinusInfinity = Finite 0"
| "fdiv PlusInfinity (Finite y) = (if 0 \<le> y then PlusInfinity else MinusInfinity)"
| "fdiv MinusInfinity (Finite y) = (if 0 \<le> y then MinusInfinity else PlusInfinity)"
| "fdiv PlusInfinity b = NaN"
| "fdiv MinusInfinity b = NaN"

text \<open>The conversion of a \<^verbatim>\<open>size_t\<close> (64 bits, unsigned) to \<^verbatim>\<open>float\<close>.\<close>

definition float_of_size_t :: "64 word \<Rightarrow> float32" where
  "float_of_size_t n = round32 (of_nat (unat n))"

text \<open>The real number a finite value denotes.\<close>

fun float_value :: "float32 \<Rightarrow> real" where
  "float_value (Finite x) = x"
| "float_value PlusInfinity = 0"
| "float_value MinusInfinity = 0"
| "float_value NaN = 0"

section \<open>Memory\<close>

text \<open>
  The pixel functions receive raw pointers. A memory maps the address of an array
  element to its content; addresses count elements, so \<^verbatim>\<open>p[i]\<close> is the content of
  \<open>ptr_index p i\<close>. Two pointers may denote overlapping arrays.
\<close>

type_synonym addr = int

type_synonym 'a memory = "addr \<Rightarrow> 'a"

definition ptr_index :: "addr \<Rightarrow> cint \<Rightarrow> addr" where
  "ptr_index p i = p + sint i"

section \<open>spaint: ImageProcessor\_Shared.h\<close>

text \<open>
  \<^verbatim>\<open>ImageProcessor::ComparisonOperator\<close> is an enumeration with the enumerators
  \<^verbatim>\<open>CO_GREATER\<close> and \<^verbatim>\<open>CO_LESS\<close>, declared in a header that is not part of the
  sources at hand. An object of the enumeration type can hold any other value of the
  underlying integer type, for which the \<^verbatim>\<open>switch\<close> has its \<^verbatim>\<open>default\<close> branch:
  this is \<open>CO_OTHER\<close>.
\<close>

datatype ComparisonOperator = CO_GREATER | CO_LESS | CO_OTHER cint

definition calculate_pixel_depth_difference ::
  "cint \<Rightarrow> addr \<Rightarrow> addr \<Rightarrow> cint \<Rightarrow> cint \<Rightarrow> addr \<Rightarrow> float32 memory \<Rightarrow> error + float32 memory" where
  "calculate_pixel_depth_difference rowMajorIndex firstInputData secondInputData width height outputData mem =
     (case int_div rowMajorIndex width of Inl e \<Rightarrow> Inl e | Inr row \<Rightarrow>
      case int_mod rowMajorIndex width of Inl e \<Rightarrow> Inl e | Inr col \<Rightarrow>
        let columnMajorIndex = col * height + row;
            firstPixel = mem (ptr_index firstInputData rowMajorIndex);
            secondPixel = mem (ptr_index secondInputData rowMajorIndex)
        in Inr (mem (ptr_index outputData columnMajorIndex :=
                  if fge firstPixel (Finite 0) \<and> fge secondPixel (Finite 0)
                  then fabs (fsub firstPixel secondPixel) else Finite (- 1))))"

definition copy_af_pixel_to_itm ::
  "cint \<Rightarrow> addr \<Rightarrow> cint \<Rightarrow> cint \<Rightarrow> addr \<Rightarrow> 'a memory \<Rightarrow> error + 'a memory" where
  "copy_af_pixel_to_itm columnMajorIndex inputData width height outputData mem =
     (case int_mod columnMajorIndex height of Inl e \<Rightarrow> Inl e | Inr row \<Rightarrow>
      case int_div columnMajorIndex height of Inl e \<Rightarrow> Inl e | Inr col \<Rightarrow>
        let rowMajorIndex = row * width + col
        in Inr (mem (ptr_index outputData rowMajorIndex := mem (ptr_index inputData columnMajorIndex))))"

definition copy_itm_pixel_to_af ::
  "cint \<Rightarrow> addr \<Rightarrow> cint \<Rightarrow> cint \<Rightarrow> addr \<Rightarrow> 'a memory \<Rightarrow> error + 'a memory" where
  "copy_itm_pixel_to_af rowMajorIndex inputData width height outputData mem =
     (case int_div rowMajorIndex width of Inl e \<Rightarrow> Inl e | Inr row \<Rightarrow>
      case int_mod rowMajorIndex width of Inl e \<Rightarrow> Inl e | Inr col \<Rightarrow>
        let columnMajorIndex = col * height + row
        in Inr (mem (ptr_index outputData columnMajorIndex := mem (ptr_index inputData rowMajorIndex))))"

definition set_pixel_on_threshold ::
  "cint \<Rightarrow> addr \<Rightarrow> ComparisonOperator \<Rightarrow> float32 \<Rightarrow> float32 \<Rightarrow> addr \<Rightarrow> float32 memory \<Rightarrow> float32 memory" where
  "set_pixel_on_threshold pixelIndex inputData op threshold val outputData mem =
     (let input = mem (ptr_index inputData pixelIndex);
          output = ptr_index outputData pixelIndex
      in case op of
           CO_GREATER \<Rightarrow> mem (output := if fgt input threshold then val else input)
         | CO_LESS \<Rightarrow> mem (output := if flt input threshold then val else input)
         | CO_OTHER v \<Rightarrow> mem)"

text \<open>
  The finite binary32 values: an integer significand of at most 24 bits, scaled by a
  power of two whose exponent lies between \<open>-149\<close> and \<open>104\<close>.
\<close>

definition representable :: "real \<Rightarrow> bool" where
  "representable g \<longleftrightarrow>
     (\<exists>k e. - 126 \<le> e \<and> e \<le> 127 \<and> \<bar>k\<bar> < 2 ^ 24 \<and> g = of_int k * 2 powi (e - 23))"

text \<open>The value of a converted \<^verbatim>\<open>size_t\<close>, which is always finite.\<close>

definition size_value :: "64 word \<Rightarrow> real" where
  "size_value n = round_to_grid (of_nat (unat n))"

section \<open>The type double\<close>

text \<open>
  \<^verbatim>\<open>double\<close> is IEEE 754 binary64, modelled as \<^verbatim>\<open>float\<close> is: a significand of 53 bits,
  exponents between \<open>-1022\<close> and \<open>1023\<close>, the subnormal numbers, one zero, round to
  nearest with ties to even, and an infinity for a result of magnitude \<open>2 ^ 1024\<close> or
  more.
\<close>

datatype float64 = Finite64 real | PlusInfinity64 | MinusInfinity64 | NaN64

fun exponent_search64 :: "nat \<Rightarrow> real \<Rightarrow> int" where
  "exponent_search64 0 x = - 1022"
| "exponent_search64 (Suc n) x =
     (if 2 powi (int n - 1021) \<le> x then int n - 1021 else exponent_search64 n x)"

definition double_exponent :: "real \<Rightarrow> int" where
  "double_exponent x = exponent_search64 2045 \<bar>x\<bar>"

definition round_to_grid64 :: "real \<Rightarrow> real" where
  "round_to_grid64 x =
     of_int (round_half_even (x / 2 powi (double_exponent x - 52))) * 2 powi (double_exponent x - 52)"

definition round64 :: "real \<Rightarrow> float64" where
  "round64 x =
     (let r = round_to_grid64 x
      in if 2 ^ 1024 \<le> r then PlusInfinity64
         else if r \<le> - (2 ^ 1024) then MinusInfinity64
         else Finite64 r)"

fun dadd :: "float64 \<Rightarrow> float64 \<Rightarrow> float64" where
  "dadd NaN64 b = NaN64"
| "dadd a NaN64 = NaN64"
| "dadd (Finite64 x) (Finite64 y) = round64 (x + y)"
| "dadd PlusInfinity64 MinusInfinity64 = NaN64"
| "dadd MinusInfinity64 PlusInfinity64 = NaN64"
| "dadd PlusInfinity64 b = PlusInfinity64"
| "dadd MinusInfinity64 b = MinusInfinity64"
| "dadd a PlusInfinity64 = PlusInfinity64"
| "dadd a MinusInfinity64 = MinusInfinity64"

fun dmul :: "float64 \<Rightarrow> float64 \<Rightarrow> float64" where
  "dmul NaN64 b = NaN64"
| "dmul a NaN64 = NaN64"
| "dmul (Finite64 x) (Finite64 y) = round64 (x * y)"
| "dmul (Finite64 x) PlusInfinity64 =
     (if x = 0 then NaN64 else if 0 < x then PlusInfinity64 else MinusInfinity64)"
| "dmul (Finite64 x) MinusInfinity64 =
     (if x = 0 then NaN64 else if 0 < x then MinusInfinity64 else PlusInfinity64)"
| "dmul PlusInfinity64 (Finite64 y) =
     (if y = 0 then NaN64 else if 0 < y then PlusInfinity64 else MinusInfinity64)"
| "dmul MinusInfinity64 (Finite64 y) =
     (if y = 0 then NaN64 else if 0 < y then MinusInfinity64 else PlusInfinity64)"
| "dmul PlusInfinity64 PlusInfinity64 = PlusInfinity64"
| "dmul PlusInfinity64 MinusInfinity64 = MinusInfinity64"
| "dmul MinusInfinity64 PlusInfinity64 = MinusInfinity64"
| "dmul MinusInfinity64 MinusInfinity64 = PlusInfinity64"

text \<open>
  The conversions between the two types: every \<^verbatim>\<open>float\<close> is a \<^verbatim>\<open>double\<close>, and a
  \<^verbatim>\<open>double\<close> is rounded to the nearest \<^verbatim>\<open>float\<close>.
\<close>

fun double_of_float :: "float32 \<Rightarrow> float64" where
  "double_of_float (Finite x) = Finite64 x"
| "double_of_float PlusInfinity = PlusInfinity64"
| "double_of_float MinusInfinity = MinusInfinity64"
| "double_of_float NaN = NaN64"

fun float_of_double :: "float64 \<Rightarrow> float32" where
  "float_of_double (Finite64 x) = round32 x"
| "float_of_double PlusInfinity64 = PlusInfinity"
| "float_of_double MinusInfinity64 = MinusInfinity"
| "float_of_double NaN64 = NaN"

text \<open>
  The finite binary64 values: an integer significand of at most 53 bits, scaled by a
  power of two whose exponent lies between \<open>-1074\<close> and \<open>971\<close>.
\<close>

definition representable64 :: "real \<Rightarrow> bool" where
  "representable64 g \<longleftrightarrow>
     (\<exists>k e. - 1022 \<le> e \<and> e \<le> 1023 \<and> \<bar>k\<bar> < 2 ^ 53 \<and> g = of_int k * 2 powi (e - 52))"

subsection \<open>Whole images\<close>

text \<open>
  The pixel functions are applied to a whole image by the image processor
  (\<^verbatim>\<open>ImageProcessor_CPU.cpp\<close> and its CUDA counterpart), which is not among the sources
  at hand. The CPU version is a loop over the pixel indices
  \<^verbatim>\<open>0 .. height * width - 1\<close> in ascending order; \<open>for_each_pixel\<close> is that loop.
\<close>

fun for_each_pixel :: "(cint \<Rightarrow> 'a memory \<Rightarrow> error + 'a memory) \<Rightarrow> nat \<Rightarrow> 'a memory \<Rightarrow> error + 'a memory" where
  "for_each_pixel f 0 mem = Inr mem"
| "for_each_pixel f (Suc n) mem =
     (case for_each_pixel f n mem of Inl e \<Rightarrow> Inl e | Inr mem' \<Rightarrow> f (of_nat n) mem')"

definition copy_itm_to_af :: "addr \<Rightarrow> cint \<Rightarrow> cint \<Rightarrow> addr \<Rightarrow> 'a memory \<Rightarrow> error + 'a memory" where
  "copy_itm_to_af inputData width height outputData mem =
     for_each_pixel (\<lambda>rowMajorIndex. copy_itm_pixel_to_af rowMajorIndex inputData width height outputData)
       (nat (sint (height * width))) mem"

definition copy_af_to_itm :: "addr \<Rightarrow> cint \<Rightarrow> cint \<Rightarrow> addr \<Rightarrow> 'a memory \<Rightarrow> error + 'a memory" where
  "copy_af_to_itm inputData width height outputData mem =
     for_each_pixel (\<lambda>columnMajorIndex. copy_af_pixel_to_itm columnMajorIndex inputData width height outputData)
       (nat (sint (height * width))) mem"

text \<open>
  The index of a pixel after transposition: the pixel at row-major index \<open>i\<close> of an image
  of width \<open>w\<close> and height \<open>h\<close> is at row \<open>i div w\<close> and column \<open>i mod w\<close>.
\<close>

definition transposed :: "int \<Rightarrow> int \<Rightarrow> int \<Rightarrow> int" where
  "transposed w h i = (i mod w) * h + i div w"

section \<open>rafl: ProbabilityMassFunction.h\<close>

text \<open>
  \<^verbatim>\<open>Histogram.h\<close> is not among the sources at hand. The constructor of the probability
  mass function reads a histogram through \<^verbatim>\<open>get_bins()\<close>, a
  \<^verbatim>\<open>std::map<Label,size_t>\<close>, and \<^verbatim>\<open>get_count()\<close>, a \<^verbatim>\<open>size_t\<close>; a histogram is the
  record of these two. A \<^verbatim>\<open>std::map\<close> is the list of its entries in the order of
  iteration, that is, with strictly ascending keys.
\<close>

record 'label Histogram =
  get_bins :: "('label \<times> 64 word) list"
  get_count :: "64 word"

text \<open>The literal \<^verbatim>\<open>1e-9f\<close>: the binary32 value nearest to \<open>10\<^sup>-\<^sup>9\<close>.\<close>

definition SMALL_EPSILON :: float32 where
  "SMALL_EPSILON = round32 (1 / 10 ^ 9)"

text \<open>\<^verbatim>\<open>std::map::insert\<close>: an entry whose key is present already is not inserted.\<close>

definition map_insert :: "'k::linorder \<times> 'v \<Rightarrow> ('k \<times> 'v) list \<Rightarrow> ('k \<times> 'v) list" where
  "map_insert kv m = (if fst kv \<in> fst ` set m then m else insort_key fst kv m)"

text \<open>
  The mass the constructor computes for a bin of \<open>n\<close> instances, in a histogram of
  \<open>count\<close> instances: \<^verbatim>\<open>static_cast<float>(it->second) / count\<close>.
\<close>

definition bin_mass :: "64 word \<Rightarrow> 64 word \<Rightarrow> float32" where
  "bin_mass n count = fdiv (float_of_size_t n) (float_of_size_t count)"

text \<open>
  The loop of the constructor, over the bins that remain; \<open>m_masses\<close> is the member
  under construction. The \<^verbatim>\<open>assert\<close> ends the construction with a failure.
\<close>

fun masses_loop ::
  "('label::linorder \<times> 64 word) list \<Rightarrow> 64 word \<Rightarrow> ('label \<times> float32) list
     \<Rightarrow> error + ('label \<times> float32) list" where
  "masses_loop [] count m_masses = Inr m_masses"
| "masses_loop ((label, n) # bins) count m_masses =
     (let mass = fdiv (float_of_size_t n) (float_of_size_t count)
      in if fge mass SMALL_EPSILON
         then masses_loop bins count (map_insert (label, mass) m_masses)
         else Inl AssertionFailure)"

definition ProbabilityMassFunction ::
  "'label::linorder Histogram \<Rightarrow> error + ('label \<times> float32) list" where
  "ProbabilityMassFunction histogram =
     masses_loop (get_bins histogram) (get_count histogram) []"

text \<open>
  \<^verbatim>\<open>calculate_entropy\<close>. The call \<^verbatim>\<open>log2(mass)\<close> is unqualified, and the header
  includes \<^verbatim>\<open><cmath>\<close> only: it is a call of the function \<^verbatim>\<open>log2(double)\<close> of the C
  library. So the mass is converted to \<^verbatim>\<open>double\<close>, the product and the sum of
  \<^verbatim>\<open>entropy += mass * log2(mass)\<close> are computed in \<^verbatim>\<open>double\<close>, and the sum is converted to
  \<^verbatim>\<open>float\<close> by the assignment. The results of \<^verbatim>\<open>log2\<close> are not fixed by the language (they
  need not be correctly rounded): the function is a parameter of the model, and what a
  theorem needs of it is one of its hypotheses.
\<close>

fun entropy_loop :: "(float64 \<Rightarrow> float64) \<Rightarrow> ('label \<times> float32) list \<Rightarrow> float32 \<Rightarrow> float32" where
  "entropy_loop log2 [] entropy = entropy"
| "entropy_loop log2 ((label, mass) # m_masses) entropy =
     entropy_loop log2 m_masses
       (if fgt mass (Finite 0)
        then float_of_double
               (dadd (double_of_float entropy)
                     (dmul (double_of_float mass) (log2 (double_of_float mass))))
        else entropy)"

definition calculate_entropy :: "(float64 \<Rightarrow> float64) \<Rightarrow> ('label \<times> float32) list \<Rightarrow> float32" where
  "calculate_entropy log2 m_masses = fneg (entropy_loop log2 m_masses (Finite 0))"

text \<open>
  A correctly rounded \<^verbatim>\<open>log2\<close>, as one library function that meets the hypotheses made
  below.
\<close>

fun log2_correctly_rounded :: "float64 \<Rightarrow> float64" where
  "log2_correctly_rounded (Finite64 x) =
     (if x < 0 then NaN64 else if x = 0 then MinusInfinity64 else round64 (log 2 x))"
| "log2_correctly_rounded PlusInfinity64 = PlusInfinity64"
| "log2_correctly_rounded MinusInfinity64 = NaN64"
| "log2_correctly_rounded NaN64 = NaN64"

text \<open>
  The entropy as the specification defines it, in real arithmetic:
  \<open>H = - \<Sum> p * log2(p)\<close> over the masses \<open>p\<close> of the labels, a term of probability zero
  contributing 0. It is the quantity \<open>calculate_entropy\<close> is compared with.
\<close>

definition entropy_spec :: "('label \<times> float32) list \<Rightarrow> real" where
  "entropy_spec m_masses =
     - (\<Sum>(label, mass)\<leftarrow>m_masses.
          if 0 < float_value mass then float_value mass * log 2 (float_value mass) else 0)"

section \<open>rafl: the example store\<close>

text \<open>
  Modelled from the spec: the Example Store (the reservoir of section 4.2), whose source
  is not among the sources at hand. The store has a fixed capacity \<open>K\<close>. \<open>add\<close> appends
  the example while the store holds fewer than \<open>K\<close> examples; otherwise it replaces a
  uniformly random slot with probability \<open>K / (K + n)\<close>, where \<open>n\<close> counts the examples
  seen beyond the first \<open>K\<close>, the one being added included. The random choice is an
  argument of \<open>add\<close>: a draw \<open>r\<close>, uniformly distributed over the \<open>draw_bound\<close> numbers
  below \<open>K + n\<close>, that replaces slot \<open>r\<close> when \<open>r < K\<close> and drops the example otherwise.
\<close>

record 'e ExampleStore =
  capacity :: nat
  examples :: "'e list"
  seen :: nat



definition replaced_slot :: "nat \<Rightarrow> 'e ExampleStore \<Rightarrow> nat option" where
  "replaced_slot r s =
     (if length (examples s) < capacity s then None
      else if r < capacity s then Some r else None)"

definition add :: "nat \<Rightarrow> 'e \<Rightarrow> 'e ExampleStore \<Rightarrow> 'e ExampleStore" where
  "add r example s =
     (if length (examples s) < capacity s
      then s\<lparr>examples := examples s @ [example], seen := seen s + 1\<rparr>
      else case replaced_slot r s of
             Some slot \<Rightarrow> s\<lparr>examples := (examples s)[slot := example], seen := seen s + 1\<rparr>
           | None \<Rightarrow> s\<lparr>seen := seen s + 1\<rparr>)"


section \<open>Rounding to binary32\<close>

lemma exponent_search_range: "- 126 \<le> exponent_search n x \<and> exponent_search n x \<le> int n - 126"
  by (induction n) auto

lemma exponent_search_lower: "- 126 < exponent_search n x \<Longrightarrow> 2 powi exponent_search n x \<le> x"
  by (induction n) (auto split: if_splits)

lemma exponent_search_upper:
  "x < 2 powi (int n - 125) \<Longrightarrow> x < 2 powi (exponent_search n x + 1)"
proof (induction n)
  case 0
  then show ?case by simp
next
  case (Suc n)
  show ?case
  proof (cases "2 powi (int n - 125) \<le> x")
    case True
    have "int (Suc n) - 125 = int n - 125 + 1" by simp
    then show ?thesis using Suc.prems True by simp
  next
    case False
    then show ?thesis using Suc.IH by simp
  qed
qed

lemma float_exponent_range: "- 126 \<le> float_exponent x" "float_exponent x \<le> 127"
  using exponent_search_range [of 253 "\<bar>x\<bar>"] by (simp_all add: float_exponent_def)

lemma float_exponent_lower: "- 126 < float_exponent x \<Longrightarrow> 2 powi float_exponent x \<le> \<bar>x\<bar>"
  unfolding float_exponent_def by (rule exponent_search_lower)

lemma float_exponent_upper: "\<bar>x\<bar> < 2 ^ 128 \<Longrightarrow> \<bar>x\<bar> < 2 powi (float_exponent x + 1)"
  unfolding float_exponent_def using exponent_search_upper [of "\<bar>x\<bar>" 253] by simp

lemma float_exponent_lower': "2 powi (- 126) \<le> \<bar>x\<bar> \<Longrightarrow> 2 powi float_exponent x \<le> \<bar>x\<bar>"
  using float_exponent_lower [of x] float_exponent_range(1) [of x]
  by (cases "float_exponent x = - 126") auto

lemma round_half_even_nearest: "\<bar>of_int (round_half_even q) - q\<bar> \<le> \<bar>of_int j - q\<bar>"
proof -
  let ?f = "\<lfloor>q\<rfloor>"
  have f: "of_int ?f \<le> q" "q < of_int ?f + 1" by linarith+
  consider "j \<le> ?f" | "?f + 1 \<le> j" by linarith
  then show ?thesis
  proof cases
    case 1
    then have "(of_int j :: real) \<le> of_int ?f" by simp
    then show ?thesis using f by (auto simp: round_half_even_def Let_def)
  next
    case 2
    then have "(of_int ?f :: real) + 1 \<le> of_int j" by (metis of_int_1 of_int_add of_int_le_iff)
    then show ?thesis using f by (auto simp: round_half_even_def Let_def)
  qed
qed

lemma round_half_even_error: "\<bar>of_int (round_half_even q) - q\<bar> \<le> 1 / 2"
proof -
  let ?f = "\<lfloor>q\<rfloor>"
  have f: "of_int ?f \<le> q" "q < of_int ?f + 1" by linarith+
  then show ?thesis by (auto simp: round_half_even_def Let_def)
qed

lemma round_half_even_of_int [simp]: "round_half_even (of_int j) = j"
  by (simp add: round_half_even_def)

lemma powi_split: "(2::real) powi a = 2 powi (a - b) * 2 powi b"
  by (simp flip: power_int_add)

lemma powi_nat: "0 \<le> a \<Longrightarrow> (2::real) powi a = of_int (2 ^ nat a)"
  by (simp add: power_int_def)

lemma powi_mono: "a \<le> b \<Longrightarrow> (2::real) powi a \<le> 2 powi b"
  by (rule power_int_increasing) simp_all

lemma scaled_nearest:
  assumes "0 < u"
  shows "\<bar>of_int (round_half_even (x / u)) * u - x\<bar> \<le> \<bar>of_int j * u - x\<bar>"
proof -
  have "\<bar>of_int (round_half_even (x / u)) - x / u\<bar> * u \<le> \<bar>of_int j - x / u\<bar> * u"
    using round_half_even_nearest [of "x / u" j] assms by (simp add: mult_right_mono)
  moreover have "\<bar>a - x / u\<bar> * u = \<bar>a * u - x\<bar>" for a
  proof -
    have "\<bar>a - x / u\<bar> * u = \<bar>a - x / u\<bar> * \<bar>u\<bar>" using assms by simp
    also have "\<dots> = \<bar>(a - x / u) * u\<bar>" by (simp add: abs_mult)
    also have "(a - x / u) * u = a * u - x" using assms by (simp add: algebra_simps)
    finally show ?thesis .
  qed
  ultimately show ?thesis by simp
qed

lemma round_to_grid_nearest:
  assumes "representable g"
  shows "\<bar>round_to_grid x - x\<bar> \<le> \<bar>g - x\<bar>"
proof -
  let ?e = "float_exponent x"
  let ?u = "(2::real) powi (?e - 23)"
  have u: "0 < ?u" by simp
  from assms obtain k e where g: "- 126 \<le> e" "e \<le> 127" "\<bar>k\<bar> < 2 ^ 24"
    "g = of_int k * 2 powi (e - 23)"
    unfolding representable_def by blast
  have near: "\<bar>round_to_grid x - x\<bar> \<le> \<bar>of_int j * ?u - x\<bar>" for j
    unfolding round_to_grid_def using u by (rule scaled_nearest)
  show ?thesis
  proof (cases "?e \<le> e")
    case True
    have "(2::real) powi (e - 23) = 2 powi (e - ?e) * ?u"
      using powi_split [of "e - 23" "?e - 23"] by simp
    also have "(2::real) powi (e - ?e) = of_int (2 ^ nat (e - ?e))"
      using True by (intro powi_nat) simp
    finally have "g = of_int (k * 2 ^ nat (e - ?e)) * ?u" by (simp add: g(4))
    then show ?thesis using near [of "k * 2 ^ nat (e - ?e)"] by simp
  next
    case False
    then have lt: "e + 1 \<le> ?e" by simp
    then have "- 126 < ?e" using g(1) by linarith
    then have lo: "2 powi ?e \<le> \<bar>x\<bar>" by (rule float_exponent_lower)
    have "\<bar>g\<bar> = \<bar>of_int k\<bar> * 2 powi (e - 23)" by (simp add: g(4) abs_mult)
    also have "\<dots> \<le> 2 ^ 24 * 2 powi (e - 23)"
    proof -
      have "\<bar>of_int k :: real\<bar> \<le> 2 ^ 24" using g(3)
        by (metis of_int_abs of_int_le_numeral_power_cancel_iff less_imp_le)
      then show ?thesis by (simp add: mult_right_mono)
    qed
    also have "\<dots> = 2 powi (e + 1)"
      using powi_split [of "e + 1" "e - 23"] by simp
    also have "\<dots> \<le> 2 powi ?e" using lt by (rule powi_mono)
    finally have gb: "\<bar>g\<bar> \<le> 2 powi ?e" .
    have e23: "(2::real) powi ?e = of_int (2 ^ 23) * ?u"
      using powi_split [of ?e "?e - 23"] by simp
    show ?thesis
    proof (cases "0 \<le> x")
      case True
      have "\<bar>round_to_grid x - x\<bar> \<le> \<bar>of_int (2 ^ 23) * ?u - x\<bar>" by (rule near)
      also have "\<dots> = x - 2 powi ?e" using lo True by (simp add: e23)
      also have "\<dots> \<le> \<bar>g - x\<bar>" using gb by linarith
      finally show ?thesis .
    next
      case False
      have "\<bar>round_to_grid x - x\<bar> \<le> \<bar>of_int (- (2 ^ 23)) * ?u - x\<bar>" by (rule near)
      also have "of_int (- (2 ^ 23)) * ?u = - (2 powi ?e)" by (simp add: e23)
      also have "\<bar>- (2 powi ?e) - x\<bar> = - x - 2 powi ?e" using lo False by simp
      also have "\<dots> \<le> \<bar>g - x\<bar>" using gb by linarith
      finally show ?thesis .
    qed
  qed
qed

lemma round_to_grid_le:
  assumes "representable g" "x \<le> g"
  shows "round_to_grid x \<le> g"
  using round_to_grid_nearest [OF assms(1), of x] assms(2) by linarith

lemma round_to_grid_ge:
  assumes "representable g" "g \<le> x"
  shows "g \<le> round_to_grid x"
  using round_to_grid_nearest [OF assms(1), of x] assms(2) by linarith

lemma round_to_grid_fixed:
  assumes "representable g"
  shows "round_to_grid g = g"
  using round_to_grid_nearest [OF assms, of g] by simp

lemma round_to_grid_error: "\<bar>round_to_grid x - x\<bar> \<le> 2 powi (float_exponent x - 24)"
proof -
  let ?u = "(2::real) powi (float_exponent x - 23)"
  have u: "0 < ?u" by simp
  have "\<bar>of_int (round_half_even (x / ?u)) - x / ?u\<bar> * ?u \<le> 1 / 2 * ?u"
    using round_half_even_error [of "x / ?u"] u by (intro mult_right_mono) simp_all
  moreover have "\<bar>of_int (round_half_even (x / ?u)) - x / ?u\<bar> * ?u = \<bar>round_to_grid x - x\<bar>"
  proof -
    have "\<bar>a - x / ?u\<bar> * ?u = \<bar>a * ?u - x\<bar>" for a
    proof -
      have "\<bar>a - x / ?u\<bar> * ?u = \<bar>a - x / ?u\<bar> * \<bar>?u\<bar>" by simp
      also have "\<dots> = \<bar>(a - x / ?u) * ?u\<bar>" by (simp only: abs_mult)
      also have "(a - x / ?u) * ?u = a * ?u - x" by (simp add: algebra_simps)
      finally show ?thesis .
    qed
    then show ?thesis by (simp add: round_to_grid_def)
  qed
  moreover have "1 / 2 * ?u = 2 powi (float_exponent x - 24)"
    using powi_split [of "float_exponent x - 23" "float_exponent x - 24"] by simp
  ultimately show ?thesis by simp
qed

lemma round_to_grid_relative:
  assumes "2 powi (- 126) \<le> \<bar>x\<bar>"
  shows "\<bar>round_to_grid x - x\<bar> \<le> \<bar>x\<bar> / 2 ^ 24"
proof -
  have "(2::real) powi (float_exponent x - 24) = 2 powi float_exponent x / 2 ^ 24"
    using powi_split [of "float_exponent x" "float_exponent x - 24"] by simp
  also have "\<dots> \<le> \<bar>x\<bar> / 2 ^ 24"
    using float_exponent_lower' [OF assms] by (simp add: divide_right_mono)
  finally show ?thesis using round_to_grid_error [of x] by linarith
qed

lemma representable_0 [simp]: "representable 0"
  unfolding representable_def by (intro exI [of _ 0] exI [of _ "0::int"]) simp

lemma representableI:
  assumes "- 126 \<le> e" "e \<le> 127" "\<bar>k\<bar> < 2 ^ 24" "g = of_int k * 2 powi (e - 23)"
  shows "representable g"
  unfolding representable_def using assms by (intro exI [of _ k] exI [of _ e] conjI)

lemma representable_1 [simp]: "representable 1"
  by (rule representableI [of 0 "2 ^ 23"]) (simp_all add: power_int_minus)

lemma representable_minus: "representable g \<Longrightarrow> representable (- g)"
  unfolding representable_def
  apply (elim exE)
  subgoal for k e by (intro exI [of _ "- k"] exI [of _ e]) simp
  done

lemma float_exponent_le_126:
  assumes "\<bar>x\<bar> < 2 ^ 127"
  shows "float_exponent x \<le> 126"
proof (rule ccontr)
  assume "\<not> float_exponent x \<le> 126"
  then have e: "float_exponent x = 127" using float_exponent_range(2) [of x] by linarith
  have "- 126 < float_exponent x" unfolding e by simp
  then have "2 powi float_exponent x \<le> \<bar>x\<bar>" by (rule float_exponent_lower)
  then have "2 powi 127 \<le> \<bar>x\<bar>" unfolding e .
  moreover have "(2::real) powi 127 = 2 ^ 127" by (simp add: power_int_def)
  ultimately have "2 ^ 127 \<le> \<bar>x\<bar>" by (simp only:)
  with assms have "\<bar>x\<bar> < \<bar>x\<bar>" by (rule less_le_trans)
  then show False by simp
qed

lemma representable_round_to_grid:
  assumes "\<bar>x\<bar> < 2 ^ 127"
  shows "representable (round_to_grid x)" "\<bar>round_to_grid x\<bar> \<le> 2 ^ 127"
proof -
  let ?e = "float_exponent x"
  let ?u = "(2::real) powi (?e - 23)"
  let ?m = "round_half_even (x / ?u)"
  have u: "0 < ?u" by simp
  have e: "- 126 \<le> ?e" "?e \<le> 126"
    using float_exponent_range(1) float_exponent_le_126 [OF assms] by simp_all
  have "\<bar>x\<bar> < 2 ^ 128" using assms by simp
  then have "\<bar>x\<bar> < 2 powi (?e + 1)" by (rule float_exponent_upper)
  also have "\<dots> = 2 ^ 24 * ?u" using powi_split [of "?e + 1" "?e - 23"] by simp
  finally have "\<bar>x\<bar> / ?u < 2 ^ 24" using u by (simp add: pos_divide_less_eq)
  then have q: "\<bar>x / ?u\<bar> < 2 ^ 24" using u by simp
  have "\<bar>of_int ?m - x / ?u\<bar> \<le> 1 / 2" by (rule round_half_even_error)
  then have "\<bar>of_int ?m :: real\<bar> < 2 ^ 24 + 1" using q by linarith
  then have "\<bar>?m\<bar> < 2 ^ 24 + 1"
    by (metis (mono_tags, opaque_lifting) of_int_abs of_int_less_iff of_int_numeral of_int_power of_int_add of_int_1)
  then have m: "\<bar>?m\<bar> \<le> 2 ^ 24" by linarith
  have r: "round_to_grid x = of_int ?m * ?u" by (simp add: round_to_grid_def)
  show "representable (round_to_grid x)"
  proof (cases "\<bar>?m\<bar> = 2 ^ 24")
    case False
    then have "\<bar>?m\<bar> < 2 ^ 24" using m by linarith
    then show ?thesis unfolding r using e
      by (intro representableI [of ?e ?m]) simp_all
  next
    case True
    have u2: "?u * 2 = 2 powi (?e + 1 - 23)"
      using powi_split [of "?e + 1 - 23" "?e - 23"] by simp
    from True have "?m = 2 ^ 24 \<or> ?m = - (2 ^ 24)" by linarith
    then show ?thesis
    proof
      assume "?m = 2 ^ 24"
      then have "of_int ?m * ?u = of_int (2 ^ 23) * (?u * 2)" by simp
      then have "of_int ?m * ?u = of_int (2 ^ 23) * 2 powi (?e + 1 - 23)" by (simp only: u2)
      moreover have "- 126 \<le> ?e + 1" "?e + 1 \<le> 127" using e by simp_all
      moreover have "\<bar>2 ^ 23 :: int\<bar> < 2 ^ 24" by simp
      ultimately show ?thesis unfolding r by (intro representableI [of "?e + 1" "2 ^ 23"])
    next
      assume "?m = - (2 ^ 24)"
      then have "of_int ?m * ?u = of_int (- (2 ^ 23)) * (?u * 2)" by simp
      then have "of_int ?m * ?u = of_int (- (2 ^ 23)) * 2 powi (?e + 1 - 23)" by (simp only: u2)
      moreover have "- 126 \<le> ?e + 1" "?e + 1 \<le> 127" using e by simp_all
      moreover have "\<bar>- (2 ^ 23) :: int\<bar> < 2 ^ 24" by simp
      ultimately show ?thesis unfolding r by (intro representableI [of "?e + 1" "- (2 ^ 23)"])
    qed
  qed
  have "\<bar>round_to_grid x\<bar> = \<bar>of_int ?m\<bar> * ?u" unfolding r by (simp add: abs_mult)
  also have "\<dots> \<le> 2 ^ 24 * ?u"
  proof -
    have "\<bar>of_int ?m :: real\<bar> \<le> 2 ^ 24" using m
      by (metis of_int_abs of_int_le_numeral_power_cancel_iff)
    then show ?thesis by (simp add: mult_right_mono)
  qed
  also have "\<dots> = 2 powi (?e + 1)" using powi_split [of "?e + 1" "?e - 23"] by simp
  also have "\<dots> \<le> 2 powi 127" using e by (intro powi_mono) simp
  finally show "\<bar>round_to_grid x\<bar> \<le> 2 ^ 127" by simp
qed

lemma round32_finite:
  assumes "\<bar>x\<bar> < 2 ^ 127"
  shows "round32 x = Finite (round_to_grid x)"
proof -
  have "\<bar>round_to_grid x\<bar> \<le> 2 ^ 127" using assms by (rule representable_round_to_grid)
  then have "round_to_grid x < 2 ^ 128" "- (2 ^ 128) < round_to_grid x" by simp_all
  then show ?thesis by (simp add: round32_def Let_def)
qed

lemma round_to_grid_mono:
  assumes "x \<le> y" "\<bar>x\<bar> < 2 ^ 127" "\<bar>y\<bar> < 2 ^ 127"
  shows "round_to_grid x \<le> round_to_grid y"
proof (rule ccontr)
  assume "\<not> round_to_grid x \<le> round_to_grid y"
  then have gt: "round_to_grid y < round_to_grid x" by simp
  have rx: "representable (round_to_grid x)" using assms(2) by (rule representable_round_to_grid)
  have ry: "representable (round_to_grid y)" using assms(3) by (rule representable_round_to_grid)
  have 1: "\<bar>round_to_grid y - y\<bar> \<le> \<bar>round_to_grid x - y\<bar>" using rx by (rule round_to_grid_nearest)
  have 2: "\<bar>round_to_grid x - x\<bar> \<le> \<bar>round_to_grid y - x\<bar>" using ry by (rule round_to_grid_nearest)
  have a: "y < round_to_grid x"
  proof (rule ccontr)
    assume "\<not> y < round_to_grid x"
    then have "round_to_grid x \<le> round_to_grid y" using rx by (intro round_to_grid_ge) simp_all
    then show False using gt by simp
  qed
  have b: "round_to_grid y < x"
  proof (rule ccontr)
    assume "\<not> round_to_grid y < x"
    then have "round_to_grid x \<le> round_to_grid y" using ry by (intro round_to_grid_le) simp_all
    then show False using gt by simp
  qed
  from 1 2 a b have "y \<le> x" by linarith
  with assms(1) have "x = y" by simp
  with gt show False by simp
qed

section \<open>Rounding to binary64\<close>

lemma exponent_search64_range: "- 1022 \<le> exponent_search64 n x \<and> exponent_search64 n x \<le> int n - 1022"
  by (induction n) auto

lemma exponent_search64_lower: "- 1022 < exponent_search64 n x \<Longrightarrow> 2 powi exponent_search64 n x \<le> x"
  by (induction n) (auto split: if_splits)

lemma exponent_search64_upper:
  "x < 2 powi (int n - 1021) \<Longrightarrow> x < 2 powi (exponent_search64 n x + 1)"
proof (induction n)
  case 0
  then show ?case by simp
next
  case (Suc n)
  show ?case
  proof (cases "2 powi (int n - 1021) \<le> x")
    case True
    have "int (Suc n) - 1021 = int n - 1021 + 1" by simp
    then show ?thesis using Suc.prems True by simp
  next
    case False
    then show ?thesis using Suc.IH by simp
  qed
qed

lemma double_exponent_range: "- 1022 \<le> double_exponent x" "double_exponent x \<le> 1023"
  using exponent_search64_range [of 2045 "\<bar>x\<bar>"] by (simp_all add: double_exponent_def)

lemma double_exponent_lower: "- 1022 < double_exponent x \<Longrightarrow> 2 powi double_exponent x \<le> \<bar>x\<bar>"
  unfolding double_exponent_def by (rule exponent_search64_lower)

lemma double_exponent_upper: "\<bar>x\<bar> < 2 ^ 1024 \<Longrightarrow> \<bar>x\<bar> < 2 powi (double_exponent x + 1)"
  unfolding double_exponent_def using exponent_search64_upper [of "\<bar>x\<bar>" 2045] by simp

lemma double_exponent_lower': "2 powi (- 1022) \<le> \<bar>x\<bar> \<Longrightarrow> 2 powi double_exponent x \<le> \<bar>x\<bar>"
  using double_exponent_lower [of x] double_exponent_range(1) [of x]
  by (cases "double_exponent x = - 1022") auto

lemma round_to_grid64_nearest:
  assumes "representable64 g"
  shows "\<bar>round_to_grid64 x - x\<bar> \<le> \<bar>g - x\<bar>"
proof -
  let ?e = "double_exponent x"
  let ?u = "(2::real) powi (?e - 52)"
  have u: "0 < ?u" by simp
  from assms obtain k e where g: "- 1022 \<le> e" "e \<le> 1023" "\<bar>k\<bar> < 2 ^ 53"
    "g = of_int k * 2 powi (e - 52)"
    unfolding representable64_def by blast
  have near: "\<bar>round_to_grid64 x - x\<bar> \<le> \<bar>of_int j * ?u - x\<bar>" for j
    unfolding round_to_grid64_def using u by (rule scaled_nearest)
  show ?thesis
  proof (cases "?e \<le> e")
    case True
    have "(2::real) powi (e - 52) = 2 powi (e - ?e) * ?u"
      using powi_split [of "e - 52" "?e - 52"] by simp
    also have "(2::real) powi (e - ?e) = of_int (2 ^ nat (e - ?e))"
      using True by (intro powi_nat) simp
    finally have "g = of_int (k * 2 ^ nat (e - ?e)) * ?u" by (simp add: g(4))
    then show ?thesis using near [of "k * 2 ^ nat (e - ?e)"] by simp
  next
    case False
    then have lt: "e + 1 \<le> ?e" by simp
    then have "- 1022 < ?e" using g(1) by linarith
    then have lo: "2 powi ?e \<le> \<bar>x\<bar>" by (rule double_exponent_lower)
    have "\<bar>g\<bar> = \<bar>of_int k\<bar> * 2 powi (e - 52)" by (simp add: g(4) abs_mult)
    also have "\<dots> \<le> 2 ^ 53 * 2 powi (e - 52)"
    proof -
      have "\<bar>of_int k :: real\<bar> \<le> 2 ^ 53" using g(3)
        by (metis of_int_abs of_int_le_numeral_power_cancel_iff less_imp_le)
      then show ?thesis by (simp add: mult_right_mono)
    qed
    also have "\<dots> = 2 powi (e + 1)"
      using powi_split [of "e + 1" "e - 52"] by simp
    also have "\<dots> \<le> 2 powi ?e" using lt by (rule powi_mono)
    finally have gb: "\<bar>g\<bar> \<le> 2 powi ?e" .
    have e23: "(2::real) powi ?e = of_int (2 ^ 52) * ?u"
      using powi_split [of ?e "?e - 52"] by simp
    show ?thesis
    proof (cases "0 \<le> x")
      case True
      have "\<bar>round_to_grid64 x - x\<bar> \<le> \<bar>of_int (2 ^ 52) * ?u - x\<bar>" by (rule near)
      also have "\<dots> = x - 2 powi ?e" using lo True by (simp add: e23)
      also have "\<dots> \<le> \<bar>g - x\<bar>" using gb by linarith
      finally show ?thesis .
    next
      case False
      have "\<bar>round_to_grid64 x - x\<bar> \<le> \<bar>of_int (- (2 ^ 52)) * ?u - x\<bar>" by (rule near)
      also have "of_int (- (2 ^ 52)) * ?u = - (2 powi ?e)" by (simp add: e23)
      also have "\<bar>- (2 powi ?e) - x\<bar> = - x - 2 powi ?e" using lo False by simp
      also have "\<dots> \<le> \<bar>g - x\<bar>" using gb by linarith
      finally show ?thesis .
    qed
  qed
qed

lemma round_to_grid64_le:
  assumes "representable64 g" "x \<le> g"
  shows "round_to_grid64 x \<le> g"
  using round_to_grid64_nearest [OF assms(1), of x] assms(2) by linarith

lemma round_to_grid64_ge:
  assumes "representable64 g" "g \<le> x"
  shows "g \<le> round_to_grid64 x"
  using round_to_grid64_nearest [OF assms(1), of x] assms(2) by linarith

lemma round_to_grid64_fixed:
  assumes "representable64 g"
  shows "round_to_grid64 g = g"
  using round_to_grid64_nearest [OF assms, of g] by simp

lemma round_to_grid64_error: "\<bar>round_to_grid64 x - x\<bar> \<le> 2 powi (double_exponent x - 53)"
proof -
  let ?u = "(2::real) powi (double_exponent x - 52)"
  have u: "0 < ?u" by simp
  have "\<bar>of_int (round_half_even (x / ?u)) - x / ?u\<bar> * ?u \<le> 1 / 2 * ?u"
    using round_half_even_error [of "x / ?u"] u by (intro mult_right_mono) simp_all
  moreover have "\<bar>of_int (round_half_even (x / ?u)) - x / ?u\<bar> * ?u = \<bar>round_to_grid64 x - x\<bar>"
  proof -
    have "\<bar>a - x / ?u\<bar> * ?u = \<bar>a * ?u - x\<bar>" for a
    proof -
      have "\<bar>a - x / ?u\<bar> * ?u = \<bar>a - x / ?u\<bar> * \<bar>?u\<bar>" by simp
      also have "\<dots> = \<bar>(a - x / ?u) * ?u\<bar>" by (simp only: abs_mult)
      also have "(a - x / ?u) * ?u = a * ?u - x" by (simp add: algebra_simps)
      finally show ?thesis .
    qed
    then show ?thesis by (simp add: round_to_grid64_def)
  qed
  moreover have "1 / 2 * ?u = 2 powi (double_exponent x - 53)"
    using powi_split [of "double_exponent x - 52" "double_exponent x - 53"] by simp
  ultimately show ?thesis by simp
qed

lemma round_to_grid64_relative:
  assumes "2 powi (- 1022) \<le> \<bar>x\<bar>"
  shows "\<bar>round_to_grid64 x - x\<bar> \<le> \<bar>x\<bar> / 2 ^ 53"
proof -
  have "(2::real) powi (double_exponent x - 53) = 2 powi double_exponent x / 2 ^ 53"
    using powi_split [of "double_exponent x" "double_exponent x - 53"] by simp
  also have "\<dots> \<le> \<bar>x\<bar> / 2 ^ 53"
    using double_exponent_lower' [OF assms] by (simp add: divide_right_mono)
  finally show ?thesis using round_to_grid64_error [of x] by linarith
qed

lemma representable64_0 [simp]: "representable64 0"
  unfolding representable64_def by (intro exI [of _ 0] exI [of _ "0::int"]) simp

lemma representable64I:
  assumes "- 1022 \<le> e" "e \<le> 1023" "\<bar>k\<bar> < 2 ^ 53" "g = of_int k * 2 powi (e - 52)"
  shows "representable64 g"
  unfolding representable64_def using assms by (intro exI [of _ k] exI [of _ e] conjI)

lemma representable64_1 [simp]: "representable64 1"
  by (rule representable64I [of 0 "2 ^ 52"]) (simp_all add: power_int_minus)

lemma representable64_minus: "representable64 g \<Longrightarrow> representable64 (- g)"
  unfolding representable64_def
  apply (elim exE)
  subgoal for k e by (intro exI [of _ "- k"] exI [of _ e]) simp
  done

lemma double_exponent_le_1022:
  assumes "\<bar>x\<bar> < 2 ^ 1023"
  shows "double_exponent x \<le> 1022"
proof (rule ccontr)
  assume "\<not> double_exponent x \<le> 1022"
  then have e: "double_exponent x = 1023" using double_exponent_range(2) [of x] by linarith
  have "- 1022 < double_exponent x" unfolding e by simp
  then have "2 powi double_exponent x \<le> \<bar>x\<bar>" by (rule double_exponent_lower)
  then have "2 powi 1023 \<le> \<bar>x\<bar>" unfolding e .
  moreover have "(2::real) powi 1023 = 2 ^ 1023" by (simp add: power_int_def)
  ultimately have "2 ^ 1023 \<le> \<bar>x\<bar>" by (simp only:)
  with assms have "\<bar>x\<bar> < \<bar>x\<bar>" by (rule less_le_trans)
  then show False by simp
qed

lemma representable64_round_to_grid64:
  assumes "\<bar>x\<bar> < 2 ^ 1023"
  shows "representable64 (round_to_grid64 x)" "\<bar>round_to_grid64 x\<bar> \<le> 2 ^ 1023"
proof -
  let ?e = "double_exponent x"
  let ?u = "(2::real) powi (?e - 52)"
  let ?m = "round_half_even (x / ?u)"
  have u: "0 < ?u" by simp
  have e: "- 1022 \<le> ?e" "?e \<le> 1022"
    using double_exponent_range(1) double_exponent_le_1022 [OF assms] by simp_all
  have "\<bar>x\<bar> < 2 ^ 1024" using assms by simp
  then have "\<bar>x\<bar> < 2 powi (?e + 1)" by (rule double_exponent_upper)
  also have "\<dots> = 2 ^ 53 * ?u" using powi_split [of "?e + 1" "?e - 52"] by simp
  finally have "\<bar>x\<bar> / ?u < 2 ^ 53" using u by (simp add: pos_divide_less_eq)
  then have q: "\<bar>x / ?u\<bar> < 2 ^ 53" using u by simp
  have "\<bar>of_int ?m - x / ?u\<bar> \<le> 1 / 2" by (rule round_half_even_error)
  then have "\<bar>of_int ?m :: real\<bar> < 2 ^ 53 + 1" using q by linarith
  then have "\<bar>?m\<bar> < 2 ^ 53 + 1"
    by (metis (mono_tags, opaque_lifting) of_int_abs of_int_less_iff of_int_numeral of_int_power of_int_add of_int_1)
  then have m: "\<bar>?m\<bar> \<le> 2 ^ 53" by linarith
  have r: "round_to_grid64 x = of_int ?m * ?u" by (simp add: round_to_grid64_def)
  show "representable64 (round_to_grid64 x)"
  proof (cases "\<bar>?m\<bar> = 2 ^ 53")
    case False
    then have "\<bar>?m\<bar> < 2 ^ 53" using m by linarith
    then show ?thesis unfolding r using e
      by (intro representable64I [of ?e ?m]) simp_all
  next
    case True
    have u2: "?u * 2 = 2 powi (?e + 1 - 52)"
      using powi_split [of "?e + 1 - 52" "?e - 52"] by simp
    from True have "?m = 2 ^ 53 \<or> ?m = - (2 ^ 53)" by linarith
    then show ?thesis
    proof
      assume "?m = 2 ^ 53"
      then have "of_int ?m * ?u = of_int (2 ^ 52) * (?u * 2)" by simp
      then have "of_int ?m * ?u = of_int (2 ^ 52) * 2 powi (?e + 1 - 52)" by (simp only: u2)
      moreover have "- 1022 \<le> ?e + 1" "?e + 1 \<le> 1023" using e by simp_all
      moreover have "\<bar>2 ^ 52 :: int\<bar> < 2 ^ 53" by simp
      ultimately show ?thesis unfolding r by (intro representable64I [of "?e + 1" "2 ^ 52"])
    next
      assume "?m = - (2 ^ 53)"
      then have "of_int ?m * ?u = of_int (- (2 ^ 52)) * (?u * 2)" by simp
      then have "of_int ?m * ?u = of_int (- (2 ^ 52)) * 2 powi (?e + 1 - 52)" by (simp only: u2)
      moreover have "- 1022 \<le> ?e + 1" "?e + 1 \<le> 1023" using e by simp_all
      moreover have "\<bar>- (2 ^ 52) :: int\<bar> < 2 ^ 53" by simp
      ultimately show ?thesis unfolding r by (intro representable64I [of "?e + 1" "- (2 ^ 52)"])
    qed
  qed
  have "\<bar>round_to_grid64 x\<bar> = \<bar>of_int ?m\<bar> * ?u" unfolding r by (simp add: abs_mult)
  also have "\<dots> \<le> 2 ^ 53 * ?u"
  proof -
    have "\<bar>of_int ?m :: real\<bar> \<le> 2 ^ 53" using m
      by (metis of_int_abs of_int_le_numeral_power_cancel_iff)
    then show ?thesis by (simp add: mult_right_mono)
  qed
  also have "\<dots> = 2 powi (?e + 1)" using powi_split [of "?e + 1" "?e - 52"] by simp
  also have "\<dots> \<le> 2 powi 1023" using e by (intro powi_mono) simp
  finally show "\<bar>round_to_grid64 x\<bar> \<le> 2 ^ 1023" by simp
qed

lemma round64_finite:
  assumes "\<bar>x\<bar> < 2 ^ 1023"
  shows "round64 x = Finite64 (round_to_grid64 x)"
proof -
  have "\<bar>round_to_grid64 x\<bar> \<le> 2 ^ 1023" using assms by (rule representable64_round_to_grid64)
  then have "round_to_grid64 x < 2 ^ 1024" "- (2 ^ 1024) < round_to_grid64 x" by simp_all
  then show ?thesis by (simp add: round64_def Let_def)
qed

lemma round_to_grid64_mono:
  assumes "x \<le> y" "\<bar>x\<bar> < 2 ^ 1023" "\<bar>y\<bar> < 2 ^ 1023"
  shows "round_to_grid64 x \<le> round_to_grid64 y"
proof (rule ccontr)
  assume "\<not> round_to_grid64 x \<le> round_to_grid64 y"
  then have gt: "round_to_grid64 y < round_to_grid64 x" by simp
  have rx: "representable64 (round_to_grid64 x)" using assms(2) by (rule representable64_round_to_grid64)
  have ry: "representable64 (round_to_grid64 y)" using assms(3) by (rule representable64_round_to_grid64)
  have 1: "\<bar>round_to_grid64 y - y\<bar> \<le> \<bar>round_to_grid64 x - y\<bar>" using rx by (rule round_to_grid64_nearest)
  have 2: "\<bar>round_to_grid64 x - x\<bar> \<le> \<bar>round_to_grid64 y - x\<bar>" using ry by (rule round_to_grid64_nearest)
  have a: "y < round_to_grid64 x"
  proof (rule ccontr)
    assume "\<not> y < round_to_grid64 x"
    then have "round_to_grid64 x \<le> round_to_grid64 y" using rx by (intro round_to_grid64_ge) simp_all
    then show False using gt by simp
  qed
  have b: "round_to_grid64 y < x"
  proof (rule ccontr)
    assume "\<not> round_to_grid64 y < x"
    then have "round_to_grid64 x \<le> round_to_grid64 y" using ry by (intro round_to_grid64_le) simp_all
    then show False using gt by simp
  qed
  from 1 2 a b have "y \<le> x" by linarith
  with assms(1) have "x = y" by simp
  with gt show False by simp
qed

lemma representable64_powi: "- 1074 \<le> j \<Longrightarrow> j \<le> 1023 \<Longrightarrow> representable64 (2 powi j)"
proof (cases "j \<le> - 1022")
  case True
  assume j: "- 1074 \<le> j"
  have "(2::real) powi j = 2 powi (j + 1074) * 2 powi (- 1022 - 52)"
    using powi_split [of j "- 1022 - 52"] by simp
  also have "(2::real) powi (j + 1074) = of_int (2 ^ nat (j + 1074))" using j by (intro powi_nat) simp
  finally have "(2::real) powi j = of_int (2 ^ nat (j + 1074)) * 2 powi (- 1022 - 52)" .
  moreover have "\<bar>2 ^ nat (j + 1074) :: int\<bar> < 2 ^ 53"
  proof -
    have "nat (j + 1074) < 53" using True j by simp
    then have "(2::int) ^ nat (j + 1074) < 2 ^ 53" by (intro power_strict_increasing) simp_all
    then show ?thesis by simp
  qed
  ultimately show ?thesis by (intro representable64I [of "- 1022" "2 ^ nat (j + 1074)"]) simp_all
next
  case False
  assume "j \<le> 1023"
  have "(2::real) powi j = 2 powi 52 * 2 powi (j - 52)"
    using powi_split [of j "j - 52"] by (simp add: mult.commute)
  then have "(2::real) powi j = of_int (2 ^ 52) * 2 powi (j - 52)" by simp
  moreover have "\<bar>2 ^ 52 :: int\<bar> < 2 ^ 53" by simp
  ultimately show ?thesis using False \<open>j \<le> 1023\<close> by (intro representable64I [of j "2 ^ 52"]) simp_all
qed

lemma representable64_pow: "n \<le> 1023 \<Longrightarrow> representable64 (2 ^ n)"
  using representable64_powi [of "int n"] by simp

lemma representable64_scaled:
  assumes "\<bar>k\<bar> < 2 ^ 53" "- 1074 \<le> j" "j \<le> 971"
  shows "representable64 (of_int k * 2 powi j)"
proof (cases "j \<le> - 1074 + 0")
  case True
  then have "j = - 1022 - 52" using assms(2) by simp
  then show ?thesis using assms(1) by (intro representable64I [of "- 1022" k]) simp_all
next
  case False
  then show ?thesis using assms by (intro representable64I [of "j + 52" k]) simp_all
qed

lemma representable64_int: "\<bar>k\<bar> < 2 ^ 53 \<Longrightarrow> representable64 (of_int k)"
  using representable64_scaled [of k 0] by simp

lemma round64_representable64:
  assumes "representable64 g"
  shows "round64 g = Finite64 g"
proof -
  from assms obtain k e where g: "- 1022 \<le> e" "e \<le> 1023" "\<bar>k\<bar> < 2 ^ 53"
    "g = of_int k * 2 powi (e - 52)"
    unfolding representable64_def by blast
  have "\<bar>g\<bar> = \<bar>of_int k\<bar> * 2 powi (e - 52)" by (simp add: g(4) abs_mult)
  also have "\<dots> < 2 ^ 53 * 2 powi (e - 52)"
  proof -
    have "\<bar>of_int k :: real\<bar> < 2 ^ 53" using g(3)
      by (metis of_int_abs of_int_less_numeral_power_cancel_iff)
    then show ?thesis by (intro mult_strict_right_mono) simp_all
  qed
  also have "\<dots> = 2 powi (e + 1)" using powi_split [of "e + 1" "e - 52"] by simp
  also have "\<dots> \<le> 2 powi 1024" using g(2) by (intro powi_mono) simp
  finally have "\<bar>g\<bar> < 2 ^ 1024" by simp
  then have "g < 2 ^ 1024" "- (2 ^ 1024) < g" by (simp_all add: abs_less_iff)
  then show ?thesis by (simp add: round64_def round_to_grid64_fixed [OF assms] Let_def)
qed

lemma double_exponent_eq:
  assumes "2 powi e \<le> \<bar>x\<bar>" "\<bar>x\<bar> < 2 powi (e + 1)" "- 1022 \<le> e" "e \<le> 1023"
  shows "double_exponent x = e"
proof -
  let ?f = "double_exponent x"
  have "(2::real) powi (e + 1) \<le> 2 powi 1024" using assms(4) by (intro powi_mono) simp
  then have "\<bar>x\<bar> < 2 ^ 1024" using assms(2) by simp
  then have up: "\<bar>x\<bar> < 2 powi (?f + 1)" by (rule double_exponent_upper)
  have 1: "e \<le> ?f"
  proof (rule ccontr)
    assume "\<not> e \<le> ?f"
    then have "(2::real) powi (?f + 1) \<le> 2 powi e" by (intro powi_mono) simp
    then show False using up assms(1) by linarith
  qed
  have 2: "?f \<le> e"
  proof (rule ccontr)
    assume n: "\<not> ?f \<le> e"
    then have "- 1022 < ?f" using assms(3) by linarith
    then have "2 powi ?f \<le> \<bar>x\<bar>" by (rule double_exponent_lower)
    moreover have "(2::real) powi (e + 1) \<le> 2 powi ?f" using n by (intro powi_mono) simp
    ultimately show False using assms(2) by linarith
  qed
  from 1 2 show ?thesis by simp
qed

lemma round_to_grid64_eval:
  assumes "2 powi e \<le> \<bar>x\<bar>" "\<bar>x\<bar> < 2 powi (e + 1)" "- 1022 \<le> e" "e \<le> 1023"
  shows "round_to_grid64 x = of_int (round_half_even (x / 2 powi (e - 52))) * 2 powi (e - 52)"
  unfolding round_to_grid64_def double_exponent_eq [OF assms] ..

section \<open>Rounding errors below a power of two\<close>

lemma float_exponent_less:
  assumes "\<bar>x\<bar> < 2 powi k" "- 125 \<le> k"
  shows "float_exponent x \<le> k - 1"
proof (cases "- 126 < float_exponent x")
  case True
  then have "2 powi float_exponent x \<le> \<bar>x\<bar>" by (rule float_exponent_lower)
  then have "(2::real) powi float_exponent x < 2 powi k" using assms(1) by linarith
  have "float_exponent x < k"
  proof (rule ccontr)
    assume "\<not> float_exponent x < k"
    then have "(2::real) powi k \<le> 2 powi float_exponent x" by (intro powi_mono) simp
    then show False using \<open>(2::real) powi float_exponent x < 2 powi k\<close> by linarith
  qed
  then show ?thesis by simp
next
  case False
  then show ?thesis using assms(2) by simp
qed

lemma round_to_grid_error_below:
  assumes "\<bar>x\<bar> < 2 powi k" "- 125 \<le> k"
  shows "\<bar>round_to_grid x - x\<bar> \<le> 2 powi (k - 25)"
proof -
  have "float_exponent x - 24 \<le> k - 25" using float_exponent_less [OF assms] by simp
  then have "(2::real) powi (float_exponent x - 24) \<le> 2 powi (k - 25)" by (rule powi_mono)
  then show ?thesis using round_to_grid_error [of x] by linarith
qed

lemma round32_below_1:
  assumes "\<bar>x\<bar> < 1"
  shows "\<exists>r. round32 x = Finite r \<and> \<bar>r - x\<bar> \<le> 1 / 2 ^ 25"
proof -
  have "\<bar>x\<bar> < 2 powi 0" using assms by simp
  then have "\<bar>round_to_grid x - x\<bar> \<le> 2 powi (0 - 25)" by (rule round_to_grid_error_below) simp
  moreover have "(2::real) powi (0 - 25) = 1 / 2 ^ 25" by (simp add: power_int_minus field_simps)
  moreover have "\<bar>x\<bar> < 2 ^ 127" using assms by (simp add: less_trans [where y = 1])
  ultimately show ?thesis using round32_finite [of x] by simp
qed

lemma double_exponent_less:
  assumes "\<bar>x\<bar> < 2 powi k" "- 1021 \<le> k"
  shows "double_exponent x \<le> k - 1"
proof (cases "- 1022 < double_exponent x")
  case True
  then have "2 powi double_exponent x \<le> \<bar>x\<bar>" by (rule double_exponent_lower)
  then have "(2::real) powi double_exponent x < 2 powi k" using assms(1) by linarith
  have "double_exponent x < k"
  proof (rule ccontr)
    assume "\<not> double_exponent x < k"
    then have "(2::real) powi k \<le> 2 powi double_exponent x" by (intro powi_mono) simp
    then show False using \<open>(2::real) powi double_exponent x < 2 powi k\<close> by linarith
  qed
  then show ?thesis by simp
next
  case False
  then show ?thesis using assms(2) by simp
qed

lemma round_to_grid64_error_below:
  assumes "\<bar>x\<bar> < 2 powi k" "- 1021 \<le> k"
  shows "\<bar>round_to_grid64 x - x\<bar> \<le> 2 powi (k - 54)"
proof -
  have "double_exponent x - 53 \<le> k - 54" using double_exponent_less [OF assms] by simp
  then have "(2::real) powi (double_exponent x - 53) \<le> 2 powi (k - 54)" by (rule powi_mono)
  then show ?thesis using round_to_grid64_error [of x] by linarith
qed

lemma round64_below_1:
  assumes "\<bar>x\<bar> < 1"
  shows "\<exists>r. round64 x = Finite64 r \<and> \<bar>r - x\<bar> \<le> 1 / 2 ^ 54"
proof -
  have "\<bar>x\<bar> < 2 powi 0" using assms by simp
  then have "\<bar>round_to_grid64 x - x\<bar> \<le> 2 powi (0 - 54)" by (rule round_to_grid64_error_below) simp
  moreover have "(2::real) powi (0 - 54) = 1 / 2 ^ 54" by (simp add: power_int_minus field_simps)
  moreover have "\<bar>x\<bar> < 2 ^ 1023" using assms by (simp add: less_trans [where y = 1])
  ultimately show ?thesis using round64_finite [of x] by simp
qed

section \<open>Converted counts and the mass of a bin\<close>

lemma representable_powi: "- 149 \<le> j \<Longrightarrow> j \<le> 127 \<Longrightarrow> representable (2 powi j)"
proof (cases "j \<le> - 126")
  case True
  assume j: "- 149 \<le> j"
  have "(2::real) powi j = 2 powi (j + 149) * 2 powi (- 126 - 23)"
    using powi_split [of j "- 126 - 23"] by simp
  also have "(2::real) powi (j + 149) = of_int (2 ^ nat (j + 149))" using j by (intro powi_nat) simp
  finally have "(2::real) powi j = of_int (2 ^ nat (j + 149)) * 2 powi (- 126 - 23)" .
  moreover have "\<bar>2 ^ nat (j + 149) :: int\<bar> < 2 ^ 24"
  proof -
    have "nat (j + 149) < 24" using True j by simp
    then have "(2::int) ^ nat (j + 149) < 2 ^ 24" by (intro power_strict_increasing) simp_all
    then show ?thesis by simp
  qed
  ultimately show ?thesis by (intro representableI [of "- 126" "2 ^ nat (j + 149)"]) simp_all
next
  case False
  assume "j \<le> 127"
  have "(2::real) powi j = 2 powi 23 * 2 powi (j - 23)"
    using powi_split [of j "j - 23"] by (simp add: mult.commute)
  then have "(2::real) powi j = of_int (2 ^ 23) * 2 powi (j - 23)" by simp
  moreover have "\<bar>2 ^ 23 :: int\<bar> < 2 ^ 24" by simp
  ultimately show ?thesis using False \<open>j \<le> 127\<close> by (intro representableI [of j "2 ^ 23"]) simp_all
qed

lemma representable_pow: "n \<le> 127 \<Longrightarrow> representable (2 ^ n)"
  using representable_powi [of "int n"] by simp

lemma round_nat_finite:
  assumes "k < 2 ^ 64"
  shows "round32 (of_nat k) = Finite (round_to_grid (of_nat k))"
    "0 \<le> round_to_grid (of_nat k)"
    "round_to_grid (of_nat k) \<le> 2 ^ 64"
proof -
  let ?x = "of_nat k :: real"
  have lt: "?x < 2 ^ 64" using assms by (metis of_nat_less_numeral_power_cancel_iff)
  also have "(2::real) ^ 64 < 2 ^ 127" by simp
  finally have "\<bar>?x\<bar> < 2 ^ 127" by simp
  then show "round32 ?x = Finite (round_to_grid ?x)" by (rule round32_finite)
  show "0 \<le> round_to_grid ?x" by (rule round_to_grid_ge) simp_all
  show "round_to_grid ?x \<le> 2 ^ 64" using lt by (intro round_to_grid_le representable_pow) simp_all
qed

lemma round_nat_ge_1:
  assumes "0 < k"
  shows "1 \<le> round_to_grid (of_nat k)"
proof -
  have "(1::real) \<le> of_nat k" using assms by simp
  then show ?thesis by (intro round_to_grid_ge) simp_all
qed

lemma round_nat_relative: "\<bar>round_to_grid (of_nat k) - of_nat k\<bar> \<le> of_nat k / 2 ^ 24"
proof (cases "k = 0")
  case True
  then show ?thesis by (simp add: round_to_grid_fixed)
next
  case False
  then have "1 \<le> (of_nat k :: real)" by simp
  moreover have "(2::real) powi (- 126) \<le> 1" by (simp add: power_int_minus field_simps)
  ultimately have "2 powi (- 126) \<le> \<bar>of_nat k :: real\<bar>" by linarith
  from round_to_grid_relative [OF this] show ?thesis by simp
qed

lemma float_of_size_t_finite: "float_of_size_t n = Finite (size_value n)"
  unfolding float_of_size_t_def size_value_def
  by (rule round_nat_finite(1)) (use unsigned_less [of n, where 'a = nat] in simp)

lemma size_value_bounds: "0 \<le> size_value n" "size_value n \<le> 2 ^ 64"
  unfolding size_value_def
  by (rule round_nat_finite(2,3), use unsigned_less [of n, where 'a = nat] in simp)+

lemma size_value_ge_1: "0 < unat n \<Longrightarrow> 1 \<le> size_value n"
  unfolding size_value_def by (rule round_nat_ge_1)

lemma size_value_0: "size_value 0 = 0"
  unfolding size_value_def by (simp add: round_to_grid_fixed)

lemma size_value_relative: "\<bar>size_value n - of_nat (unat n)\<bar> \<le> of_nat (unat n) / 2 ^ 24"
  unfolding size_value_def by (rule round_nat_relative)

lemma size_value_mono:
  assumes "unat a \<le> unat b"
  shows "size_value a \<le> size_value b"
proof -
  have lt: "(of_nat (unat w) :: real) < 2 ^ 127" for w :: "64 word"
  proof -
    have "unat w < 2 ^ 64" using unsigned_less [of w, where 'a = nat] by simp
    then have "(of_nat (unat w) :: real) < 2 ^ 64" by (metis of_nat_less_numeral_power_cancel_iff)
    also have "(2::real) ^ 64 < 2 ^ 127" by simp
    finally show ?thesis .
  qed
  have "(of_nat (unat a) :: real) \<le> of_nat (unat b)" using assms by (rule of_nat_mono)
  moreover have "\<bar>of_nat (unat a) :: real\<bar> < 2 ^ 127" using lt [of a] by (simp del: of_nat_unat)
  moreover have "\<bar>of_nat (unat b) :: real\<bar> < 2 ^ 127" using lt [of b] by (simp del: of_nat_unat)
  ultimately show ?thesis unfolding size_value_def by (rule round_to_grid_mono)
qed

lemma SMALL_EPSILON_finite:
  "SMALL_EPSILON = Finite (round_to_grid (1 / 10 ^ 9))"
  "2 powi (- 30) \<le> round_to_grid (1 / 10 ^ 9)"
  "round_to_grid (1 / 10 ^ 9) \<le> 2 powi (- 29)"
proof -
  have "\<bar>1 / 10 ^ 9 :: real\<bar> < 2 ^ 127" by simp
  then show "SMALL_EPSILON = Finite (round_to_grid (1 / 10 ^ 9))"
    unfolding SMALL_EPSILON_def by (rule round32_finite)
  have a: "(2::real) powi (- 30) \<le> 1 / 10 ^ 9" by (simp add: power_int_minus field_simps)
  have b: "1 / 10 ^ 9 \<le> (2::real) powi (- 29)" by (simp add: power_int_minus field_simps)
  show "2 powi (- 30) \<le> round_to_grid (1 / 10 ^ 9)"
    using a by (intro round_to_grid_ge representable_powi) simp_all
  show "round_to_grid (1 / 10 ^ 9) \<le> 2 powi (- 29)"
    using b by (intro round_to_grid_le representable_powi) simp_all
qed

lemma abs_relative:
  fixes y z u :: real
  assumes "\<bar>y - z\<bar> \<le> z * u"
  shows "z * (1 - u) \<le> y" "y \<le> z * (1 + u)"
  using assms by (simp_all add: algebra_simps abs_le_iff)

lemma relative_quotient_gen:
  fixes a b N C u d :: real
  assumes N: "0 \<le> N" and C: "0 < C" and u: "0 \<le> u" "u < 1"
    and a: "\<bar>a - N\<bar> \<le> N * u" and b: "\<bar>b - C\<bar> \<le> C * u"
    and x: "\<bar>x - a / b\<bar> \<le> (a / b) * u"
    and k1: "(1 + u) / (1 - u) * (1 + u) \<le> 1 + d"
    and k2: "1 - d \<le> (1 - u) / (1 + u) * (1 - u)"
  shows "\<bar>x - N / C\<bar> \<le> (N / C) * d"
proof -
  note bl = abs_relative(1) [OF b] and bu = abs_relative(2) [OF b]
  note al = abs_relative(1) [OF a] and au = abs_relative(2) [OF a]
  note xl = abs_relative(1) [OF x] and xu = abs_relative(2) [OF x]
  have cpos: "0 < C * (1 - u)" using C u by simp
  then have bpos: "0 < b" using bl by linarith
  have "0 \<le> N * (1 - u)" using N u by simp
  then have a0: "0 \<le> a" using al by linarith
  have "0 \<le> N * (1 + u)" using N u by simp
  then have q_up: "a / b \<le> (N * (1 + u)) / (C * (1 - u))"
    using au cpos bl by (rule frac_le)
  have q_lo: "(N * (1 - u)) / (C * (1 + u)) \<le> a / b"
  proof (rule frac_le)
    show "0 \<le> a" by (rule a0)
    show "N * (1 - u) \<le> a" by (rule al)
    show "0 < b" by (rule bpos)
    show "b \<le> C * (1 + u)" by (rule bu)
  qed
  let ?r = "N / C"
  have r0: "0 \<le> ?r" using N C by simp
  have e1: "(N * (1 + u)) / (C * (1 - u)) = ?r * ((1 + u) / (1 - u))" by simp
  have e2: "(N * (1 - u)) / (C * (1 + u)) = ?r * ((1 - u) / (1 + u))" by simp
  have "x \<le> (a / b) * (1 + u)" by (rule xu)
  also have "\<dots> \<le> (?r * ((1 + u) / (1 - u))) * (1 + u)"
    using q_up u unfolding e1 by (intro mult_right_mono) simp_all
  also have "\<dots> = ?r * ((1 + u) / (1 - u) * (1 + u))" by (simp only: mult.assoc)
  also have "\<dots> \<le> ?r * (1 + d)" using k1 r0 by (rule mult_left_mono)
  finally have up: "x \<le> ?r * (1 + d)" .
  have "?r * (1 - d) \<le> ?r * ((1 - u) / (1 + u) * (1 - u))"
    using k2 r0 by (rule mult_left_mono)
  also have "\<dots> = (?r * ((1 - u) / (1 + u))) * (1 - u)" by (simp only: mult.assoc)
  also have "\<dots> \<le> (a / b) * (1 - u)"
    using q_lo u unfolding e2 by (intro mult_right_mono) simp_all
  also have "\<dots> \<le> x" by (rule xl)
  finally have lo: "?r * (1 - d) \<le> x" .
  have "?r * (1 + d) = ?r + ?r * d" "?r * (1 - d) = ?r - ?r * d"
    by (simp_all only: distrib_left right_diff_distrib mult_1_right)
  with up lo have "x \<le> ?r + ?r * d" "?r - ?r * d \<le> x" by (simp_all only:)
  then show ?thesis by linarith
qed

lemma relative_quotient:
  fixes a b N C :: real
  assumes N: "0 \<le> N" and C: "0 < C"
    and a: "\<bar>a - N\<bar> \<le> N / 2 ^ 24" and b: "\<bar>b - C\<bar> \<le> C / 2 ^ 24"
    and x: "\<bar>x - a / b\<bar> \<le> (a / b) / 2 ^ 24"
  shows "\<bar>x - N / C\<bar> \<le> (N / C) / 10 ^ 6"
proof -
  have "\<bar>x - N / C\<bar> \<le> (N / C) * (1 / 10 ^ 6)"
  proof (rule relative_quotient_gen [where u = "1 / 2 ^ 24"])
    show "\<bar>a - N\<bar> \<le> N * (1 / 2 ^ 24)" using a by simp
    show "\<bar>b - C\<bar> \<le> C * (1 / 2 ^ 24)" using b by simp
    show "\<bar>x - a / b\<bar> \<le> a / b * (1 / 2 ^ 24)" using x by simp
  qed (use N C in simp_all)
  then show ?thesis by simp
qed

lemma bin_mass_value:
  assumes "0 < unat count"
  shows "bin_mass n count = Finite (round_to_grid (size_value n / size_value count))"
proof -
  let ?a = "size_value n" and ?b = "size_value count"
  have b: "1 \<le> ?b" using assms by (rule size_value_ge_1)
  have a: "0 \<le> ?a" "?a \<le> 2 ^ 64" by (rule size_value_bounds)+
  have "?a * 1 \<le> ?a * ?b" using b a(1) by (rule mult_left_mono)
  then have "?a / ?b \<le> ?a" using b by (simp add: divide_le_eq)
  moreover have "0 \<le> ?a / ?b" using a(1) b by simp
  moreover have "(2::real) ^ 64 < 2 ^ 127" by simp
  ultimately have "\<bar>?a / ?b\<bar> < 2 ^ 127" using a(2) by linarith
  then have "round32 (?a / ?b) = Finite (round_to_grid (?a / ?b))" by (rule round32_finite)
  moreover have "?b \<noteq> 0" using b by simp
  ultimately show ?thesis by (simp add: bin_mass_def float_of_size_t_finite)
qed

lemma bin_mass_le_1:
  assumes "0 < unat count" "unat n \<le> unat count"
  shows "round_to_grid (size_value n / size_value count) \<le> 1"
proof -
  have b: "1 \<le> size_value count" using assms(1) by (rule size_value_ge_1)
  have "size_value n \<le> size_value count" using assms(2) by (rule size_value_mono)
  then have "size_value n / size_value count \<le> 1" using b by simp
  then show ?thesis by (intro round_to_grid_le) simp_all
qed

lemma bin_mass_ok:
  assumes c: "0 < unat count" and ok: "fge (bin_mass n count) SMALL_EPSILON"
  shows "\<exists>x. bin_mass n count = Finite x \<and> 2 powi (- 30) \<le> x
         \<and> \<bar>x - of_nat (unat n) / of_nat (unat count)\<bar>
              \<le> (of_nat (unat n) / of_nat (unat count)) / 10 ^ 6"
proof -
  let ?a = "size_value n" and ?b = "size_value count"
  let ?q = "?a / ?b"
  let ?x = "round_to_grid ?q"
  have v: "bin_mass n count = Finite ?x" using c by (rule bin_mass_value)
  have "round_to_grid (1 / 10 ^ 9) \<le> ?x"
    using ok by (simp add: v SMALL_EPSILON_finite(1) fge_def)
  then have x30: "2 powi (- 30) \<le> ?x" using SMALL_EPSILON_finite(2) by linarith
  have b: "1 \<le> ?b" using c by (rule size_value_ge_1)
  have a: "0 \<le> ?a" by (rule size_value_bounds)
  have q0: "0 \<le> ?q" using a b by simp
  have q126: "2 powi (- 126) \<le> ?q"
  proof (rule ccontr)
    assume "\<not> 2 powi (- 126) \<le> ?q"
    then have "?x \<le> 2 powi (- 126)" by (intro round_to_grid_le representable_powi) simp_all
    moreover have "(2::real) powi (- 126) < 2 powi (- 30)" by (intro power_int_strict_increasing) simp_all
    ultimately show False using x30 by linarith
  qed
  have aq: "\<bar>?q\<bar> = ?q" using q0 by (rule abs_of_nonneg)
  have "2 powi (- 126) \<le> \<bar>?q\<bar>" unfolding aq by (rule q126)
  then have "\<bar>?x - ?q\<bar> \<le> \<bar>?q\<bar> / 2 ^ 24" by (rule round_to_grid_relative)
  then have xq: "\<bar>?x - ?q\<bar> \<le> ?q / 2 ^ 24" unfolding aq .
  have "0 < (of_nat (unat count) :: real)" using c by (simp del: of_nat_unat)
  moreover have "0 \<le> (of_nat (unat n) :: real)" by (simp del: of_nat_unat)
  ultimately have "\<bar>?x - of_nat (unat n) / of_nat (unat count)\<bar>
      \<le> (of_nat (unat n) / of_nat (unat count)) / 10 ^ 6"
    using size_value_relative [of n] size_value_relative [of count] xq
    by (intro relative_quotient [where a = ?a and b = ?b])
  with v x30 show ?thesis by blast
qed

lemma insort_key_snoc:
  "\<forall>y\<in>set xs. f y < f x \<Longrightarrow> insort_key f x xs = xs @ [x]"
  by (induction xs) auto

lemma map_insert_snoc:
  assumes "\<forall>k\<in>set (map fst m). k < l"
  shows "map_insert (l, v) m = m @ [(l, v)]"
proof -
  have "l \<notin> fst ` set m" using assms by auto
  moreover have "insort_key fst (l, v) m = m @ [(l, v)]"
    using assms by (intro insort_key_snoc) auto
  ultimately show ?thesis by (simp add: map_insert_def)
qed

lemma masses_loop_step:
  "masses_loop ((l, n) # bins) count m =
     (if fge (bin_mass n count) SMALL_EPSILON
      then masses_loop bins count (map_insert (l, bin_mass n count) m)
      else Inl AssertionFailure)"
  by (simp add: bin_mass_def Let_def)

lemma masses_loop_fails:
  "\<exists>(l, n)\<in>set bins. \<not> fge (bin_mass n count) SMALL_EPSILON \<Longrightarrow>
     masses_loop bins count m = Inl AssertionFailure"
proof (induction bins arbitrary: m)
  case Nil
  then show ?case by simp
next
  case (Cons b bins)
  obtain l n where b: "b = (l, n)" by (cases b)
  show ?case
  proof (cases "fge (bin_mass n count) SMALL_EPSILON")
    case True
    with Cons.prems b have "\<exists>(l, n)\<in>set bins. \<not> fge (bin_mass n count) SMALL_EPSILON" by auto
    then show ?thesis unfolding b masses_loop_step using True by (simp add: Cons.IH)
  next
    case False
    then show ?thesis unfolding b masses_loop_step by simp
  qed
qed

lemma set_map_insert: "set (map_insert kv m) \<subseteq> insert kv (set m)"
  by (auto simp: map_insert_def set_insort_key)

lemma masses_loop_succeeds:
  "\<forall>(l, n)\<in>set bins. fge (bin_mass n count) SMALL_EPSILON \<Longrightarrow>
   \<forall>(l, p)\<in>set m. fge p SMALL_EPSILON \<Longrightarrow>
     \<exists>m'. masses_loop bins count m = Inr m' \<and> (\<forall>(l, p)\<in>set m'. fge p SMALL_EPSILON)"
proof (induction bins arbitrary: m)
  case Nil
  then show ?case by simp
next
  case (Cons b bins)
  obtain l n where b: "b = (l, n)" by (cases b)
  have ok: "fge (bin_mass n count) SMALL_EPSILON" using Cons.prems(1) b by simp
  have "\<forall>(l, p)\<in>set (map_insert (l, bin_mass n count) m). fge p SMALL_EPSILON"
    using set_map_insert [of "(l, bin_mass n count)" m] Cons.prems(2) ok by auto
  moreover have "\<forall>(l, n)\<in>set bins. fge (bin_mass n count) SMALL_EPSILON"
    using Cons.prems(1) by simp
  ultimately show ?case unfolding b masses_loop_step using ok Cons.IH by simp
qed

lemma masses_loop_sorted:
  "sorted_wrt (<) (map fst m @ map fst bins) \<Longrightarrow>
   \<forall>(l, n)\<in>set bins. fge (bin_mass n count) SMALL_EPSILON \<Longrightarrow>
     masses_loop bins count m = Inr (m @ map (\<lambda>(l, n). (l, bin_mass n count)) bins)"
proof (induction bins arbitrary: m)
  case Nil
  then show ?case by simp
next
  case (Cons b bins)
  obtain l n where b: "b = (l, n)" by (cases b)
  have ok: "fge (bin_mass n count) SMALL_EPSILON" using Cons.prems(2) b by simp
  have less: "\<forall>k\<in>set (map fst m). k < l"
    using Cons.prems(1) unfolding b by (auto simp: sorted_wrt_append)
  have ins: "map_insert (l, bin_mass n count) m = m @ [(l, bin_mass n count)]"
    using less by (rule map_insert_snoc)
  have "sorted_wrt (<) (map fst (m @ [(l, bin_mass n count)]) @ map fst bins)"
    using Cons.prems(1) unfolding b by simp
  moreover have "\<forall>(l, n)\<in>set bins. fge (bin_mass n count) SMALL_EPSILON"
    using Cons.prems(2) by simp
  ultimately have "masses_loop bins count (m @ [(l, bin_mass n count)]) =
      Inr ((m @ [(l, bin_mass n count)]) @ map (\<lambda>(l, n). (l, bin_mass n count)) bins)"
    by (rule Cons.IH)
  then show ?case unfolding b masses_loop_step using ok by (simp add: ins)
qed

lemma representable_scaled:
  assumes "\<bar>k\<bar> < 2 ^ 24" "- 149 \<le> j" "j \<le> 104"
  shows "representable (of_int k * 2 powi j)"
proof (cases "j \<le> - 149 + 0")
  case True
  then have "j = - 126 - 23" using assms(2) by simp
  then show ?thesis using assms(1) by (intro representableI [of "- 126" k]) simp_all
next
  case False
  then show ?thesis using assms by (intro representableI [of "j + 23" k]) simp_all
qed

lemma representable_int: "\<bar>k\<bar> < 2 ^ 24 \<Longrightarrow> representable (of_int k)"
  using representable_scaled [of k 0] by simp

lemma round32_representable:
  assumes "representable g"
  shows "round32 g = Finite g"
proof -
  from assms obtain k e where g: "- 126 \<le> e" "e \<le> 127" "\<bar>k\<bar> < 2 ^ 24"
    "g = of_int k * 2 powi (e - 23)"
    unfolding representable_def by blast
  have "\<bar>g\<bar> = \<bar>of_int k\<bar> * 2 powi (e - 23)" by (simp add: g(4) abs_mult)
  also have "\<dots> < 2 ^ 24 * 2 powi (e - 23)"
  proof -
    have "\<bar>of_int k :: real\<bar> < 2 ^ 24" using g(3)
      by (metis of_int_abs of_int_less_numeral_power_cancel_iff)
    then show ?thesis by (intro mult_strict_right_mono) simp_all
  qed
  also have "\<dots> = 2 powi (e + 1)" using powi_split [of "e + 1" "e - 23"] by simp
  also have "\<dots> \<le> 2 powi 128" using g(2) by (intro powi_mono) simp
  finally have "\<bar>g\<bar> < 2 ^ 128" by simp
  then have "g < 2 ^ 128" "- (2 ^ 128) < g" by (simp_all add: abs_less_iff)
  then show ?thesis by (simp add: round32_def round_to_grid_fixed [OF assms] Let_def)
qed

lemma size_value_representable:
  assumes "representable (of_nat (unat n))"
  shows "size_value n = of_nat (unat n)"
  unfolding size_value_def using assms by (rule round_to_grid_fixed)

lemma round_to_grid_small_nat:
  assumes "k < 2 ^ 24"
  shows "round_to_grid (of_nat k) = of_nat k"
proof -
  have "\<bar>int k\<bar> < 2 ^ 24" using assms by simp
  then have "representable (of_int (int k))" by (rule representable_int)
  then have "representable (of_nat k)" by simp
  then show ?thesis by (rule round_to_grid_fixed)
qed

lemma size_value_small: "unat n < 2 ^ 24 \<Longrightarrow> size_value n = of_nat (unat n)"
  unfolding size_value_def by (rule round_to_grid_small_nat)

lemma bin_mass_exact:
  assumes "0 < unat count" "unat n < 2 ^ 24" "unat count < 2 ^ 24"
    "representable (of_nat (unat n) / of_nat (unat count))"
  shows "bin_mass n count = Finite (of_nat (unat n) / of_nat (unat count))"
proof -
  have "bin_mass n count = Finite (round_to_grid (size_value n / size_value count))"
    using assms(1) by (rule bin_mass_value)
  also have "size_value n = of_nat (unat n)" using assms(2) by (rule size_value_small)
  also have "size_value count = of_nat (unat count)" using assms(3) by (rule size_value_small)
  also have "round_to_grid (of_nat (unat n) / of_nat (unat count)) = of_nat (unat n) / of_nat (unat count)"
    using assms(4) by (rule round_to_grid_fixed)
  finally show ?thesis .
qed

lemma SMALL_EPSILON_below:
  assumes "2 powi (- 29) \<le> x"
  shows "fge (Finite x) SMALL_EPSILON"
  using assms SMALL_EPSILON_finite(3) by (simp add: SMALL_EPSILON_finite(1) fge_def)

lemma SMALL_EPSILON_above:
  assumes "x < 2 powi (- 30)"
  shows "\<not> fge (Finite x) SMALL_EPSILON"
  using assms SMALL_EPSILON_finite(2) by (simp add: SMALL_EPSILON_finite(1) fge_def)

lemma fge_SMALL_EPSILON_finite:
  assumes "fge p SMALL_EPSILON"
  shows "p = PlusInfinity \<or> (\<exists>x. p = Finite x \<and> 2 powi (- 30) \<le> x)"
  using assms SMALL_EPSILON_finite(2)
  by (cases p) (auto simp: SMALL_EPSILON_finite(1) fge_def)

text \<open>
  Without the condition on the assertion the construction can fail: in a histogram of
  \<open>2\<^sup>3\<^sup>1\<close> instances a bin of one instance has the mass \<open>2\<^sup>-\<^sup>3\<^sup>1\<close>, below
  \<open>SMALL_EPSILON\<close>.
\<close>

theorem pmf_tiny_mass_counterexample:
  "unat (1 :: 64 word) + unat (2147483647 :: 64 word) = unat (2147483648 :: 64 word)
   \<and> ProbabilityMassFunction \<lparr>get_bins = [(0::nat, 1), (1, 2147483647)], get_count = 2147483648\<rparr>
       = Inl AssertionFailure"
proof -
  have c: "0 < unat (2147483648 :: 64 word)" by simp
  have "representable (2 ^ 31)" by (rule representable_pow) simp
  then have "representable (of_nat (unat (2147483648 :: 64 word)))" by simp
  then have sc: "size_value (2147483648 :: 64 word) = 2 ^ 31" by (simp add: size_value_representable)
  have s1: "size_value (1 :: 64 word) = 1" by (simp add: size_value_small)
  have "representable (2 powi (- 31))" by (rule representable_powi) simp_all
  then have "round_to_grid (2 powi (- 31)) = 2 powi (- 31)" by (rule round_to_grid_fixed)
  moreover have "(1::real) / 2 ^ 31 = 2 powi (- 31)" by (simp add: power_int_minus field_simps)
  ultimately have "bin_mass 1 2147483648 = Finite (2 powi (- 31))"
    using bin_mass_value [OF c, of 1] by (simp add: sc s1)
  moreover have "(2::real) powi (- 31) < 2 powi (- 30)" by (intro power_int_strict_increasing) simp_all
  ultimately have "\<not> fge (bin_mass 1 2147483648) SMALL_EPSILON"
    by (simp add: SMALL_EPSILON_above)
  then have "masses_loop [(0::nat, 1), (1, 2147483647)] 2147483648 [] = Inl AssertionFailure"
    by (intro masses_loop_fails) simp
  then show ?thesis by (simp add: ProbabilityMassFunction_def)
qed

text \<open>The construction from the histogram of no instances and no bins does not fail.\<close>

theorem pmf_of_empty_histogram_counterexample:
  "ProbabilityMassFunction \<lparr>get_bins = ([] :: (nat \<times> 64 word) list), get_count = 0\<rparr> = Inr []"
  by (simp add: ProbabilityMassFunction_def)

lemma fle_NaN_right [simp]: "fle a NaN = False"
  by (cases a) simp_all

lemma flt_NaN_right [simp]: "flt a NaN = False"
  by (cases a) simp_all

lemma bin_mass_zero_count: "\<not> fge (bin_mass 0 count) SMALL_EPSILON"
proof (cases "size_value count = 0")
  case True
  then show ?thesis by (simp add: bin_mass_def float_of_size_t_finite size_value_0 fge_def)
next
  case False
  have "representable 0" by simp
  then have "round32 0 = Finite 0" by (rule round32_representable)
  then have "bin_mass 0 count = Finite 0"
    using False by (simp add: bin_mass_def float_of_size_t_finite size_value_0)
  moreover have "(0::real) < 2 powi (- 30)" by simp
  ultimately show ?thesis by (simp add: SMALL_EPSILON_above)
qed

lemma bin_ok_positive:
  assumes "fge (bin_mass n count) SMALL_EPSILON"
  shows "0 < unat n"
proof (rule ccontr)
  assume "\<not> 0 < unat n"
  then have "n = 0" by (simp add: unat_eq_0)
  then show False using assms bin_mass_zero_count by simp
qed

lemma representable_10_9: "representable (10 ^ 9)"
proof -
  have "representable (of_int 15625000 * 2 powi 6)" by (rule representable_scaled) simp_all
  then show ?thesis by simp
qed

lemma bin_ok_moderate:
  assumes n: "0 < unat n" and c: "0 < unat count" "unat count \<le> 10 ^ 9"
  shows "fge (bin_mass n count) SMALL_EPSILON"
proof -
  let ?a = "size_value n" and ?b = "size_value count"
  have a: "1 \<le> ?a" using n by (rule size_value_ge_1)
  have b: "1 \<le> ?b" using c(1) by (rule size_value_ge_1)
  have "(of_nat (unat count) :: real) \<le> 10 ^ 9"
    using c(2) by (metis of_nat_le_iff of_nat_numeral of_nat_power)
  then have b9: "?b \<le> 10 ^ 9" unfolding size_value_def
    by (intro round_to_grid_le representable_10_9)
  have "1 / 10 ^ 9 \<le> 1 / ?b" using b b9 by (intro divide_left_mono) simp_all
  also have "\<dots> \<le> ?a / ?b" using a b by (intro divide_right_mono) simp_all
  finally have q: "1 / 10 ^ 9 \<le> ?a / ?b" .
  have "\<bar>1 / 10 ^ 9 :: real\<bar> < 2 ^ 127" by simp
  moreover have "\<bar>?a / ?b\<bar> < 2 ^ 127"
  proof -
    have "?a * 1 \<le> ?a * ?b" using b a by (intro mult_left_mono) simp_all
    then have "?a / ?b \<le> ?a" using b by (simp add: divide_le_eq)
    moreover have "0 \<le> ?a / ?b" using a b by simp
    moreover have "?a \<le> 2 ^ 64" by (rule size_value_bounds)
    moreover have "(2::real) ^ 64 < 2 ^ 127" by simp
    ultimately show ?thesis by linarith
  qed
  ultimately have "round_to_grid (1 / 10 ^ 9) \<le> round_to_grid (?a / ?b)"
    using q by (intro round_to_grid_mono)
  then show ?thesis
    by (simp add: bin_mass_value [OF c(1)] SMALL_EPSILON_finite(1) fge_def)
qed

section \<open>The assertion of the constructor\<close>

text \<open>
  The loop of the constructor ends with a probability mass function when the mass computed
  for every bin passes the test of the assertion, and at the assertion otherwise. Bins of
  positive counts in a histogram of at most \<open>10\<^sup>9\<close> instances pass it.
\<close>

lemma construction_by_assertion:
  "((\<forall>(l, n)\<in>set (get_bins h). fge (bin_mass n (get_count h)) SMALL_EPSILON) \<longrightarrow>
      (\<exists>m. ProbabilityMassFunction h = Inr m \<and> (\<forall>(l, p)\<in>set m. fge p SMALL_EPSILON))
      \<and> (\<forall>(l, n)\<in>set (get_bins h). 0 < unat n))
   \<and> ((\<exists>(l, n)\<in>set (get_bins h). \<not> fge (bin_mass n (get_count h)) SMALL_EPSILON) \<longrightarrow>
      ProbabilityMassFunction h = Inl AssertionFailure)
   \<and> ((\<forall>(l, n)\<in>set (get_bins h). 0 < unat n) \<and> 0 < unat (get_count h)
        \<and> unat (get_count h) \<le> 10 ^ 9 \<longrightarrow>
      (\<forall>(l, n)\<in>set (get_bins h). fge (bin_mass n (get_count h)) SMALL_EPSILON))"
proof (intro conjI impI)
  assume ok: "\<forall>(l, n)\<in>set (get_bins h). fge (bin_mass n (get_count h)) SMALL_EPSILON"
  have "\<forall>(l, p)\<in>set ([] :: ('a \<times> float32) list). fge p SMALL_EPSILON" by simp
  with ok show "\<exists>m. ProbabilityMassFunction h = Inr m \<and> (\<forall>(l, p)\<in>set m. fge p SMALL_EPSILON)"
    unfolding ProbabilityMassFunction_def by (rule masses_loop_succeeds)
  show "\<forall>(l, n)\<in>set (get_bins h). 0 < unat n"
    using ok bin_ok_positive by fastforce
next
  assume "\<exists>(l, n)\<in>set (get_bins h). \<not> fge (bin_mass n (get_count h)) SMALL_EPSILON"
  then show "ProbabilityMassFunction h = Inl AssertionFailure"
    unfolding ProbabilityMassFunction_def by (rule masses_loop_fails)
next
  assume "(\<forall>(l, n)\<in>set (get_bins h). 0 < unat n) \<and> 0 < unat (get_count h)
        \<and> unat (get_count h) \<le> 10 ^ 9"
  then show "\<forall>(l, n)\<in>set (get_bins h). fge (bin_mass n (get_count h)) SMALL_EPSILON"
    using bin_ok_moderate by fastforce
qed

lemma bin_mass_3_4: "bin_mass 3 4 = Finite (3 / 4)"
proof -
  have "representable (of_int 3 * 2 powi (- 2))" by (rule representable_scaled) simp_all
  then have "representable (3 / 4)" by (simp add: power_int_minus)
  then show ?thesis using bin_mass_exact [of 4 3] by simp
qed

lemma bin_mass_1_4: "bin_mass 1 4 = Finite (1 / 4)"
proof -
  have "representable (of_int 1 * 2 powi (- 2))" by (rule representable_scaled) simp_all
  then have "representable (1 / 4)" by (simp add: power_int_minus)
  then show ?thesis using bin_mass_exact [of 4 1] by simp
qed

lemma bin_mass_1_2_33: "bin_mass 1 8589934592 = Finite (2 powi (- 33))"
proof -
  have c: "0 < unat (8589934592 :: 64 word)" by simp
  have "representable (2 ^ 33)" by (rule representable_pow) simp
  then have "representable (of_nat (unat (8589934592 :: 64 word)))" by simp
  then have sc: "size_value (8589934592 :: 64 word) = 2 ^ 33" by (simp add: size_value_representable)
  have s1: "size_value (1 :: 64 word) = 1" by (simp add: size_value_small)
  have "representable (2 powi (- 33))" by (rule representable_powi) simp_all
  then have "round_to_grid (2 powi (- 33)) = 2 powi (- 33)" by (rule round_to_grid_fixed)
  moreover have "(1::real) / 2 ^ 33 = 2 powi (- 33)" by (simp add: power_int_minus field_simps)
  ultimately show ?thesis using bin_mass_value [OF c, of 1] by (simp add: sc s1)
qed

lemma fge_3_4: "fge (Finite (3 / 4)) SMALL_EPSILON" "fge (Finite (1 / 4)) SMALL_EPSILON"
  by (rule SMALL_EPSILON_below, simp add: power_int_minus)+

section \<open>The histogram of no instances\<close>

text \<open>
  C3 (as amended). For a histogram whose count is 0 (and whose bins sum to it): when it
  has no bins, the construction does not fail and yields the probability mass function
  of no labels; when it has bins, the construction fails at the assertion, the mass of
  a bin being the NaN \<open>0 / 0\<close>. In neither case there is a result whose masses sum to 1.
\<close>

theorem pmf_of_empty_histogram:
  assumes "get_count h = 0" and "(\<Sum>(l, n)\<leftarrow>get_bins h. unat n) = unat (get_count h)"
  shows "(get_bins h = [] \<longrightarrow> ProbabilityMassFunction h = Inr [])
       \<and> (get_bins h \<noteq> [] \<longrightarrow> ProbabilityMassFunction h = Inl AssertionFailure)
       \<and> (\<forall>m. ProbabilityMassFunction h = Inr m \<longrightarrow> (\<Sum>(l, p)\<leftarrow>m. float_value p) = 0)"
proof -
  have empty: "ProbabilityMassFunction h = Inr []" if "get_bins h = []"
    using that by (simp add: ProbabilityMassFunction_def)
  have fails: "ProbabilityMassFunction h = Inl AssertionFailure" if "get_bins h \<noteq> []"
  proof -
    from that obtain l n bins where b: "get_bins h = (l, n) # bins"
      by (cases "get_bins h") auto
    have "unat n = 0" using assms by (simp add: b)
    then have "n = 0" by (simp add: unat_eq_0)
    then have "\<not> fge (bin_mass n (get_count h)) SMALL_EPSILON" by (simp add: bin_mass_zero_count)
    then have "\<exists>(l, n)\<in>set (get_bins h). \<not> fge (bin_mass n (get_count h)) SMALL_EPSILON"
      unfolding b by simp
    then show ?thesis unfolding ProbabilityMassFunction_def by (rule masses_loop_fails)
  qed
  have "(\<Sum>(l, p)\<leftarrow>m. float_value p) = 0" if "ProbabilityMassFunction h = Inr m" for m
    using that empty fails by (cases "get_bins h = []") auto
  with empty fails show ?thesis by blast
qed

theorem pmf_of_empty_histogram_witness:
  "ProbabilityMassFunction \<lparr>get_bins = ([] :: (char \<times> 64 word) list), get_count = 0\<rparr> = Inr []
   \<and> ProbabilityMassFunction \<lparr>get_bins = [(CHR ''A'', 0)], get_count = 0\<rparr> = Inl AssertionFailure"
  using pmf_of_empty_histogram [of "\<lparr>get_bins = ([] :: (char \<times> 64 word) list), get_count = 0\<rparr>"]
    pmf_of_empty_histogram [of "\<lparr>get_bins = [(CHR ''A'', 0)], get_count = 0\<rparr>"]
  by simp

lemma sum_list_close:
  fixes f g :: "'a \<Rightarrow> real"
  assumes "\<forall>b\<in>set bs. \<bar>f b - g b\<bar> \<le> g b * d"
  shows "\<bar>sum_list (map f bs) - sum_list (map g bs)\<bar> \<le> sum_list (map g bs) * d"
  using assms
proof (induction bs)
  case Nil
  then show ?case by simp
next
  case (Cons b bs)
  have "\<bar>f b - g b\<bar> \<le> g b * d" using Cons.prems by simp
  moreover have "\<bar>sum_list (map f bs) - sum_list (map g bs)\<bar> \<le> sum_list (map g bs) * d"
    using Cons by simp
  ultimately show ?case by (simp add: distrib_right)
qed

lemma sum_list_ratio:
  "(\<Sum>(l, n)\<leftarrow>bins. (of_nat (unat n) :: real) / C) = of_nat (\<Sum>(l, n)\<leftarrow>bins. unat (n :: 64 word)) / C"
  by (induction bins) (auto simp: add_divide_distrib simp del: of_nat_unat)

section \<open>The masses of a probability mass function\<close>

text \<open>
  C1 (as amended). For every histogram of positive count whose bins sum to that count
  and in which the mass computed for every bin passes the assertion of the constructor,
  the construction succeeds; every label receives the binary32 quotient of its count
  and the count of the histogram, which is finite, strictly greater than 0 and within
  a relative error of \<open>10\<^sup>-\<^sup>6\<close> of the exact quotient; and the masses sum to 1 within
  \<open>10\<^sup>-\<^sup>6\<close>.
\<close>

theorem pmf_masses:
  fixes h :: "'label::linorder Histogram"
  assumes keys: "sorted_wrt (<) (map fst (get_bins h))"
    and inv: "(\<Sum>(l, n)\<leftarrow>get_bins h. unat n) = unat (get_count h)"
    and pos: "0 < unat (get_count h)"
    and ok: "\<forall>(l, n)\<in>set (get_bins h). fge (bin_mass n (get_count h)) SMALL_EPSILON"
  shows "\<exists>m. ProbabilityMassFunction h = Inr m
       \<and> m = map (\<lambda>(l, n). (l, bin_mass n (get_count h))) (get_bins h)
       \<and> (\<forall>(l, n)\<in>set (get_bins h). \<exists>x. bin_mass n (get_count h) = Finite x \<and> 0 < x
             \<and> \<bar>x - of_nat (unat n) / of_nat (unat (get_count h))\<bar>
                  \<le> (of_nat (unat n) / of_nat (unat (get_count h))) / 10 ^ 6)
       \<and> \<bar>(\<Sum>(l, p)\<leftarrow>m. float_value p) - 1\<bar> \<le> 1 / 10 ^ 6"
proof -
  let ?c = "get_count h"
  let ?C = "of_nat (unat ?c) :: real"
  let ?m = "map (\<lambda>(l, n). (l, bin_mass n ?c)) (get_bins h)"
  let ?f = "\<lambda>(l :: 'label, n). float_value (bin_mass n ?c)"
  let ?g = "\<lambda>(l :: 'label, n :: 64 word). (of_nat (unat n) :: real) / ?C"
  have run: "ProbabilityMassFunction h = Inr ?m"
    unfolding ProbabilityMassFunction_def
    using masses_loop_sorted [of "[]" "get_bins h" ?c] keys ok by simp
  have each: "\<exists>x. bin_mass n ?c = Finite x \<and> 0 < x
             \<and> \<bar>x - of_nat (unat n) / ?C\<bar> \<le> (of_nat (unat n) / ?C) / 10 ^ 6"
    if "(l, n) \<in> set (get_bins h)" for l n
  proof -
    have "fge (bin_mass n ?c) SMALL_EPSILON" using ok that by auto
    from bin_mass_ok [OF pos this] obtain x where x: "bin_mass n ?c = Finite x"
      "2 powi (- 30) \<le> x"
      "\<bar>x - of_nat (unat n) / ?C\<bar> \<le> (of_nat (unat n) / ?C) / 10 ^ 6"
      by blast
    have "(0::real) < 2 powi (- 30)" by simp
    then have "0 < x" using x(2) by linarith
    with x show ?thesis by blast
  qed
  have "\<forall>b\<in>set (get_bins h). \<bar>?f b - ?g b\<bar> \<le> ?g b * (1 / 10 ^ 6)"
  proof
    fix b assume b: "b \<in> set (get_bins h)"
    obtain l n where ln: "b = (l, n)" by (cases b)
    from each [of l n] b ln obtain x where "bin_mass n ?c = Finite x"
      "\<bar>x - of_nat (unat n) / ?C\<bar> \<le> (of_nat (unat n) / ?C) / 10 ^ 6"
      by blast
    then show "\<bar>?f b - ?g b\<bar> \<le> ?g b * (1 / 10 ^ 6)" by (simp add: ln del: of_nat_unat)
  qed
  then have "\<bar>sum_list (map ?f (get_bins h)) - sum_list (map ?g (get_bins h))\<bar>
      \<le> sum_list (map ?g (get_bins h)) * (1 / 10 ^ 6)"
    by (rule sum_list_close)
  moreover have "sum_list (map ?g (get_bins h)) = 1"
  proof -
    have "sum_list (map ?g (get_bins h)) = of_nat (\<Sum>(l, n)\<leftarrow>get_bins h. unat n) / ?C"
      by (rule sum_list_ratio)
    also have "\<dots> = ?C / ?C" by (simp only: inv)
    also have "\<dots> = 1" using pos by (simp del: of_nat_unat)
    finally show ?thesis .
  qed
  moreover have "(\<Sum>(l, p)\<leftarrow>?m. float_value p) = sum_list (map ?f (get_bins h))"
    by (simp add: comp_def case_prod_unfold)
  ultimately have total: "\<bar>(\<Sum>(l, p)\<leftarrow>?m. float_value p) - 1\<bar> \<le> 1 / 10 ^ 6" by simp
  have every: "\<forall>(l, n)\<in>set (get_bins h). \<exists>x. bin_mass n ?c = Finite x \<and> 0 < x
             \<and> \<bar>x - of_nat (unat n) / ?C\<bar> \<le> (of_nat (unat n) / ?C) / 10 ^ 6"
    using each by blast
  show ?thesis by (rule exI [of _ ?m]) (intro conjI run refl every total)
qed

theorem pmf_masses_witness:
  "\<exists>m. ProbabilityMassFunction \<lparr>get_bins = [(CHR ''A'', 3), (CHR ''B'', 1)], get_count = 4\<rparr> = Inr m
     \<and> m = [(CHR ''A'', Finite (3 / 4)), (CHR ''B'', Finite (1 / 4))]
     \<and> \<bar>(\<Sum>(l, p)\<leftarrow>m. float_value p) - 1\<bar> \<le> 1 / 10 ^ 6"
proof -
  let ?h = "\<lparr>get_bins = [(CHR ''A'', 3 :: 64 word), (CHR ''B'', 1)], get_count = 4\<rparr>"
  have 1: "sorted_wrt (<) (map fst (get_bins ?h))" by simp
  have 2: "(\<Sum>(l, n)\<leftarrow>get_bins ?h. unat n) = unat (get_count ?h)" by simp
  have 3: "0 < unat (get_count ?h)" by simp
  have 4: "\<forall>(l, n)\<in>set (get_bins ?h). fge (bin_mass n (get_count ?h)) SMALL_EPSILON"
    by (simp add: bin_mass_3_4 bin_mass_1_4 fge_3_4)
  from pmf_masses [OF 1 2 3 4] show ?thesis
    by (simp add: bin_mass_3_4 bin_mass_1_4)
qed

section \<open>The assertion and the exact mass\<close>

lemma float_exponent_eq:
  assumes "2 powi e \<le> \<bar>x\<bar>" "\<bar>x\<bar> < 2 powi (e + 1)" "- 126 \<le> e" "e \<le> 127"
  shows "float_exponent x = e"
proof -
  let ?f = "float_exponent x"
  have "(2::real) powi (e + 1) \<le> 2 powi 128" using assms(4) by (intro powi_mono) simp
  then have "\<bar>x\<bar> < 2 ^ 128" using assms(2) by simp
  then have up: "\<bar>x\<bar> < 2 powi (?f + 1)" by (rule float_exponent_upper)
  have 1: "e \<le> ?f"
  proof (rule ccontr)
    assume "\<not> e \<le> ?f"
    then have "(2::real) powi (?f + 1) \<le> 2 powi e" by (intro powi_mono) simp
    then show False using up assms(1) by linarith
  qed
  have 2: "?f \<le> e"
  proof (rule ccontr)
    assume n: "\<not> ?f \<le> e"
    then have "- 126 < ?f" using assms(3) by linarith
    then have "2 powi ?f \<le> \<bar>x\<bar>" by (rule float_exponent_lower)
    moreover have "(2::real) powi (e + 1) \<le> 2 powi ?f" using n by (intro powi_mono) simp
    ultimately show False using assms(2) by linarith
  qed
  from 1 2 show ?thesis by simp
qed

lemma round_to_grid_eval:
  assumes "2 powi e \<le> \<bar>x\<bar>" "\<bar>x\<bar> < 2 powi (e + 1)" "- 126 \<le> e" "e \<le> 127"
  shows "round_to_grid x = of_int (round_half_even (x / 2 powi (e - 23))) * 2 powi (e - 23)"
  unfolding round_to_grid_def float_exponent_eq [OF assms] ..

lemma size_value_1000000001: "size_value 1000000001 = 10 ^ 9"
proof -
  have "round_to_grid 1000000001
      = of_int (round_half_even (1000000001 / 2 powi (29 - 23))) * 2 powi (29 - 23)"
    by (rule round_to_grid_eval) simp_all
  also have "\<dots> = 10 ^ 9" by (simp add: round_half_even_def)
  finally show ?thesis by (simp add: size_value_def)
qed

lemma quotient_bounds:
  fixes a b N C :: real
  assumes N: "0 \<le> N" and C: "0 < C"
    and a: "\<bar>a - N\<bar> \<le> N / 2 ^ 24" and b: "\<bar>b - C\<bar> \<le> C / 2 ^ 24"
  shows "N / C * (1 - 1 / 4000000) \<le> a / b" "a / b \<le> N / C * (1 + 1 / 4000000)"
proof -
  let ?u = "1 / 2 ^ 24 :: real"
  have a': "\<bar>a - N\<bar> \<le> N * ?u" using a by simp
  have b': "\<bar>b - C\<bar> \<le> C * ?u" using b by simp
  note bl = abs_relative(1) [OF b'] and bu = abs_relative(2) [OF b']
  note al = abs_relative(1) [OF a'] and au = abs_relative(2) [OF a']
  have cpos: "0 < C * (1 - ?u)" using C by simp
  then have bpos: "0 < b" using bl by linarith
  have "0 \<le> N * (1 - ?u)" using N by simp
  then have a0: "0 \<le> a" using al by linarith
  have r0: "0 \<le> N / C" using N C by simp
  have "0 \<le> N * (1 + ?u)" using N by simp
  then have "a / b \<le> (N * (1 + ?u)) / (C * (1 - ?u))" using au cpos bl by (rule frac_le)
  also have "\<dots> = N / C * ((1 + ?u) / (1 - ?u))" by simp
  also have "\<dots> \<le> N / C * (1 + 1 / 4000000)" using r0 by (intro mult_left_mono) simp_all
  finally show "a / b \<le> N / C * (1 + 1 / 4000000)" .
  have "N / C * (1 - 1 / 4000000) \<le> N / C * ((1 - ?u) / (1 + ?u))"
    using r0 by (intro mult_left_mono) simp_all
  also have "\<dots> = (N * (1 - ?u)) / (C * (1 + ?u))" by simp
  also have "\<dots> \<le> a / b"
  proof (rule frac_le)
    show "0 \<le> a" by (rule a0)
    show "N * (1 - ?u) \<le> a" by (rule al)
    show "0 < b" by (rule bpos)
    show "b \<le> C * (1 + ?u)" by (rule bu)
  qed
  finally show "N / C * (1 - 1 / 4000000) \<le> a / b" .
qed

lemma size_quotient_bounds:
  assumes "0 < unat count"
  shows "of_nat (unat n) / of_nat (unat count) * (1 - 1 / 4000000) \<le> size_value n / size_value count"
    "size_value n / size_value count \<le> of_nat (unat n) / of_nat (unat count) * (1 + 1 / 4000000)"
proof -
  have C: "0 < (of_nat (unat count) :: real)" using assms by (simp del: of_nat_unat)
  have N: "0 \<le> (of_nat (unat n) :: real)" by (simp del: of_nat_unat)
  from quotient_bounds [OF N C size_value_relative [of n] size_value_relative [of count]]
  show "of_nat (unat n) / of_nat (unat count) * (1 - 1 / 4000000) \<le> size_value n / size_value count"
    "size_value n / size_value count \<le> of_nat (unat n) / of_nat (unat count) * (1 + 1 / 4000000)"
    by blast+
qed

lemma size_quotient_range:
  assumes "0 < unat count"
  shows "0 \<le> size_value n / size_value count" "\<bar>size_value n / size_value count\<bar> < 2 ^ 127"
proof -
  let ?a = "size_value n" and ?b = "size_value count"
  have b: "1 \<le> ?b" using assms by (rule size_value_ge_1)
  have a: "0 \<le> ?a" "?a \<le> 2 ^ 64" by (rule size_value_bounds)+
  show q0: "0 \<le> ?a / ?b" using a(1) b by simp
  have "?a * 1 \<le> ?a * ?b" using b a(1) by (rule mult_left_mono)
  then have "?a / ?b \<le> ?a" using b by (simp add: divide_le_eq)
  moreover have "(2::real) ^ 64 < 2 ^ 127" by simp
  ultimately show "\<bar>?a / ?b\<bar> < 2 ^ 127" using a(2) q0 by linarith
qed

lemma bin_passes_above:
  assumes c: "0 < unat count"
    and r: "(1 + 1 / 10 ^ 6) / 10 ^ 9 \<le> (of_nat (unat n) / of_nat (unat count) :: real)"
  shows "fge (bin_mass n count) SMALL_EPSILON"
proof -
  let ?r = "of_nat (unat n) / of_nat (unat count) :: real"
  let ?q = "size_value n / size_value count"
  have "(1 + 1 / 10 ^ 6) / 10 ^ 9 * (1 - 1 / 4000000) \<le> ?r * (1 - 1 / 4000000)"
    using r by (rule mult_right_mono) simp
  moreover have "(1::real) / 10 ^ 9 \<le> (1 + 1 / 10 ^ 6) / 10 ^ 9 * (1 - 1 / 4000000)" by simp
  ultimately have "1 / 10 ^ 9 \<le> ?q" using size_quotient_bounds(1) [OF c, of n] by linarith
  moreover have "\<bar>1 / 10 ^ 9 :: real\<bar> < 2 ^ 127" by simp
  ultimately have "round_to_grid (1 / 10 ^ 9) \<le> round_to_grid ?q"
    using size_quotient_range(2) [OF c, of n] by (intro round_to_grid_mono)
  then show ?thesis by (simp add: bin_mass_value [OF c] SMALL_EPSILON_finite(1) fge_def)
qed

lemma SMALL_EPSILON_lower: "9007199 / 2 ^ 53 \<le> round_to_grid (1 / 10 ^ 9)"
proof -
  have "representable (of_int 9007199 * 2 powi (- 53))" by (rule representable_scaled) simp_all
  moreover have "of_int 9007199 * 2 powi (- 53) = (9007199 / 2 ^ 53 :: real)"
    by (simp add: power_int_minus field_simps)
  ultimately have "representable (9007199 / 2 ^ 53)" by simp
  then show ?thesis by (rule round_to_grid_ge) simp
qed

lemma bin_fails_at:
  assumes c: "0 < unat count" and q: "size_value n / size_value count \<le> 9007198 / 2 ^ 53"
  shows "\<not> fge (bin_mass n count) SMALL_EPSILON"
proof -
  have "representable (of_int 9007198 * 2 powi (- 53))" by (rule representable_scaled) simp_all
  moreover have "of_int 9007198 * 2 powi (- 53) = (9007198 / 2 ^ 53 :: real)"
    by (simp add: power_int_minus field_simps)
  ultimately have "representable (9007198 / 2 ^ 53)" by simp
  then have "round_to_grid (size_value n / size_value count) \<le> 9007198 / 2 ^ 53"
    using q by (rule round_to_grid_le)
  moreover have "(9007198 / 2 ^ 53 :: real) < 9007199 / 2 ^ 53" by simp
  ultimately have "round_to_grid (size_value n / size_value count) < round_to_grid (1 / 10 ^ 9)"
    using SMALL_EPSILON_lower by linarith
  then show ?thesis by (simp add: bin_mass_value [OF c] SMALL_EPSILON_finite(1) fge_def)
qed

lemma bin_fails_below:
  assumes c: "0 < unat count"
    and r: "(of_nat (unat n) / of_nat (unat count) :: real) \<le> (1 - 1 / 10 ^ 6) / 10 ^ 9"
  shows "\<not> fge (bin_mass n count) SMALL_EPSILON"
proof -
  let ?r = "of_nat (unat n) / of_nat (unat count) :: real"
  have "?r * (1 + 1 / 4000000) \<le> (1 - 1 / 10 ^ 6) / 10 ^ 9 * (1 + 1 / 4000000)"
    using r by (rule mult_right_mono) simp
  moreover have "(1 - 1 / 10 ^ 6) / 10 ^ 9 * (1 + 1 / 4000000) \<le> (9007198 / 2 ^ 53 :: real)" by simp
  ultimately have "size_value n / size_value count \<le> 9007198 / 2 ^ 53"
    using size_quotient_bounds(2) [OF c, of n] by linarith
  with c show ?thesis by (rule bin_fails_at)
qed

text \<open>
  C4 (as amended). The constructor compares the mass it computes, the binary32 quotient of
  the converted counts, with \<open>SMALL_EPSILON\<close>, the binary32 value of \<^verbatim>\<open>1e-9f\<close>; this is
  not the comparison of the exact quotient \<open>count / total\<close> with \<open>10\<^sup>-\<^sup>9\<close>, from which it
  differs within a relative margin of \<open>10\<^sup>-\<^sup>6\<close>. For every histogram:
  when the computed mass of every bin passes the test, the construction succeeds, every
  mass of the result is bounded below by \<open>SMALL_EPSILON\<close>, and every bin has a positive
  count; when the computed mass of some bin does not pass, the construction ends at the
  assertion and yields no probability mass function. In terms of the exact quotient, for
  a positive total: when every bin has \<open>count / total \<ge> (1 + 10\<^sup>-\<^sup>6) * 10\<^sup>-\<^sup>9\<close> the assertion
  never fires and the construction succeeds; when some bin has
  \<open>count / total \<le> (1 - 10\<^sup>-\<^sup>6) * 10\<^sup>-\<^sup>9\<close> the construction fails at the assertion. Bins of
  positive counts in a histogram of at most \<open>10\<^sup>9\<close> instances always pass.
\<close>

theorem assertion_and_exact_mass:
  "((\<forall>(l, n)\<in>set (get_bins h). fge (bin_mass n (get_count h)) SMALL_EPSILON) \<longrightarrow>
      (\<exists>m. ProbabilityMassFunction h = Inr m \<and> (\<forall>(l, p)\<in>set m. fge p SMALL_EPSILON))
      \<and> (\<forall>(l, n)\<in>set (get_bins h). 0 < unat n))
   \<and> ((\<exists>(l, n)\<in>set (get_bins h). \<not> fge (bin_mass n (get_count h)) SMALL_EPSILON) \<longrightarrow>
      ProbabilityMassFunction h = Inl AssertionFailure)
   \<and> (0 < unat (get_count h)
        \<and> (\<forall>(l, n)\<in>set (get_bins h).
              (1 + 1 / 10 ^ 6) / 10 ^ 9 \<le> (of_nat (unat n) / of_nat (unat (get_count h)) :: real)) \<longrightarrow>
      (\<exists>m. ProbabilityMassFunction h = Inr m \<and> (\<forall>(l, p)\<in>set m. fge p SMALL_EPSILON)))
   \<and> (0 < unat (get_count h)
        \<and> (\<exists>(l, n)\<in>set (get_bins h).
              (of_nat (unat n) / of_nat (unat (get_count h)) :: real) \<le> (1 - 1 / 10 ^ 6) / 10 ^ 9) \<longrightarrow>
      ProbabilityMassFunction h = Inl AssertionFailure)
   \<and> ((\<forall>(l, n)\<in>set (get_bins h). 0 < unat n) \<and> 0 < unat (get_count h)
        \<and> unat (get_count h) \<le> 10 ^ 9 \<longrightarrow>
      (\<exists>m. ProbabilityMassFunction h = Inr m \<and> (\<forall>(l, p)\<in>set m. fge p SMALL_EPSILON)))"
proof -
  note a = construction_by_assertion [of h]
  have succeeds: "\<exists>m. ProbabilityMassFunction h = Inr m \<and> (\<forall>(l, p)\<in>set m. fge p SMALL_EPSILON)"
    if "\<forall>(l, n)\<in>set (get_bins h). fge (bin_mass n (get_count h)) SMALL_EPSILON"
    using a that by blast
  have fails: "ProbabilityMassFunction h = Inl AssertionFailure"
    if "\<exists>(l, n)\<in>set (get_bins h). \<not> fge (bin_mass n (get_count h)) SMALL_EPSILON"
    using a that by blast
  have 3: "\<exists>m. ProbabilityMassFunction h = Inr m \<and> (\<forall>(l, p)\<in>set m. fge p SMALL_EPSILON)"
    if "0 < unat (get_count h)
        \<and> (\<forall>(l, n)\<in>set (get_bins h).
              (1 + 1 / 10 ^ 6) / 10 ^ 9 \<le> (of_nat (unat n) / of_nat (unat (get_count h)) :: real))"
  proof (rule succeeds)
    show "\<forall>(l, n)\<in>set (get_bins h). fge (bin_mass n (get_count h)) SMALL_EPSILON"
    proof (clarify)
      fix l n assume "(l, n) \<in> set (get_bins h)"
      with that have "(1 + 1 / 10 ^ 6) / 10 ^ 9 \<le> (of_nat (unat n) / of_nat (unat (get_count h)) :: real)"
        by blast
      with that show "fge (bin_mass n (get_count h)) SMALL_EPSILON"
        by (intro bin_passes_above) simp_all
    qed
  qed
  have 4: "ProbabilityMassFunction h = Inl AssertionFailure"
    if "0 < unat (get_count h)
        \<and> (\<exists>(l, n)\<in>set (get_bins h).
              (of_nat (unat n) / of_nat (unat (get_count h)) :: real) \<le> (1 - 1 / 10 ^ 6) / 10 ^ 9)"
  proof (rule fails)
    from that obtain l n where b: "(l, n) \<in> set (get_bins h)"
      and r: "(of_nat (unat n) / of_nat (unat (get_count h)) :: real) \<le> (1 - 1 / 10 ^ 6) / 10 ^ 9"
      by blast
    from that r have "\<not> fge (bin_mass n (get_count h)) SMALL_EPSILON"
      by (intro bin_fails_below) simp_all
    with b show "\<exists>(l, n)\<in>set (get_bins h). \<not> fge (bin_mass n (get_count h)) SMALL_EPSILON"
      by blast
  qed
  have 5: "\<exists>m. ProbabilityMassFunction h = Inr m \<and> (\<forall>(l, p)\<in>set m. fge p SMALL_EPSILON)"
    if "(\<forall>(l, n)\<in>set (get_bins h). 0 < unat n) \<and> 0 < unat (get_count h)
        \<and> unat (get_count h) \<le> 10 ^ 9"
    using a that succeeds by blast
  from a 3 4 5 show ?thesis by blast
qed

theorem assertion_and_exact_mass_witness:
  "(\<exists>m. ProbabilityMassFunction \<lparr>get_bins = [(CHR ''A'', 3), (CHR ''B'', 1)], get_count = 4\<rparr> = Inr m
       \<and> (\<forall>(l, p)\<in>set m. fge p SMALL_EPSILON))
   \<and> ProbabilityMassFunction \<lparr>get_bins = [(CHR ''A'', 1), (CHR ''B'', 8589934591)],
         get_count = 8589934592\<rparr> = Inl AssertionFailure
   \<and> (\<exists>m. ProbabilityMassFunction \<lparr>get_bins = [(CHR ''A'', 2), (CHR ''B'', 998)], get_count = 1000\<rparr> = Inr m)"
proof -
  let ?h = "\<lparr>get_bins = [(CHR ''A'', 3 :: 64 word), (CHR ''B'', 1)], get_count = 4\<rparr>"
  let ?g = "\<lparr>get_bins = [(CHR ''A'', 1 :: 64 word), (CHR ''B'', 8589934591)], get_count = 8589934592\<rparr>"
  let ?k = "\<lparr>get_bins = [(CHR ''A'', 2 :: 64 word), (CHR ''B'', 998)], get_count = 1000\<rparr>"
  have 1: "\<forall>(l, n)\<in>set (get_bins ?h). fge (bin_mass n (get_count ?h)) SMALL_EPSILON"
    by (simp add: bin_mass_3_4 bin_mass_1_4 fge_3_4)
  have "(2::real) powi (- 33) < 2 powi (- 30)" by (intro power_int_strict_increasing) simp_all
  then have 2: "\<exists>(l, n)\<in>set (get_bins ?g). \<not> fge (bin_mass n (get_count ?g)) SMALL_EPSILON"
    by (simp add: bin_mass_1_2_33 SMALL_EPSILON_above)
  have 3: "0 < unat (get_count ?h)
        \<and> (\<forall>(l, n)\<in>set (get_bins ?h).
              (1 + 1 / 10 ^ 6) / 10 ^ 9 \<le> (of_nat (unat n) / of_nat (unat (get_count ?h)) :: real))"
    by simp
  have 4: "0 < unat (get_count ?g)
        \<and> (\<exists>(l, n)\<in>set (get_bins ?g).
              (of_nat (unat n) / of_nat (unat (get_count ?g)) :: real) \<le> (1 - 1 / 10 ^ 6) / 10 ^ 9)"
    by simp
  have 5: "(\<forall>(l, n)\<in>set (get_bins ?k). 0 < unat n) \<and> 0 < unat (get_count ?k)
        \<and> unat (get_count ?k) \<le> 10 ^ 9"
    by simp
  note t1 = assertion_and_exact_mass [of ?h, THEN conjunct1, THEN mp, OF 1, THEN conjunct1]
  note t2 = assertion_and_exact_mass [of ?g, THEN conjunct2, THEN conjunct1, THEN mp, OF 2]
  note t3 = assertion_and_exact_mass [of ?h, THEN conjunct2, THEN conjunct2, THEN conjunct1, THEN mp, OF 3]
  note t4 = assertion_and_exact_mass [of ?g, THEN conjunct2, THEN conjunct2, THEN conjunct2,
      THEN conjunct1, THEN mp, OF 4]
  note t5 = assertion_and_exact_mass [of ?k, THEN conjunct2, THEN conjunct2, THEN conjunct2,
      THEN conjunct2, THEN mp, OF 5]
  from t5 have "\<exists>m. ProbabilityMassFunction ?k = Inr m" by blast
  with t1 t2 t3 t4 show ?thesis by blast
qed

text \<open>
  Between the two margins the exact quotient does not decide the outcome, in either
  direction. In the histogram of counts 1 and 1000000000 the first bin has the exact mass
  \<open>1 / 1000000001 < 10\<^sup>-\<^sup>9\<close>; the total is converted to the binary32 value \<open>10\<^sup>9\<close>, the
  computed mass is \<open>SMALL_EPSILON\<close> itself, and the construction succeeds. In the histogram
  of counts 18014413 and 18014412450111284 the first bin has an exact mass of at least
  \<open>10\<^sup>-\<^sup>9\<close>; the conversions round the count down to 18014412 and the total up to
  18014413541867520, the computed mass is one unit in the last place below
  \<open>SMALL_EPSILON\<close>, and the construction fails at the assertion.
\<close>

lemma size_value_18014413: "size_value 18014413 = 18014412"
proof -
  have "round_to_grid 18014413
      = of_int (round_half_even (18014413 / 2 powi (24 - 23))) * 2 powi (24 - 23)"
    by (rule round_to_grid_eval) simp_all
  also have "\<dots> = 18014412" by (simp add: round_half_even_def)
  finally show ?thesis by (simp add: size_value_def)
qed

lemma size_value_18014412468125697: "size_value 18014412468125697 = 18014413541867520"
proof -
  have "round_to_grid 18014412468125697
      = of_int (round_half_even (18014412468125697 / 2 powi (54 - 23))) * 2 powi (54 - 23)"
    by (rule round_to_grid_eval) simp_all
  also have "\<dots> = 18014413541867520" by (simp add: round_half_even_def)
  finally show ?thesis by (simp add: size_value_def)
qed

lemma round_to_grid_below_epsilon: "round_to_grid (18014397 / 2 ^ 54) = 9007198 / 2 ^ 53"
proof -
  have "round_to_grid (18014397 / 2 ^ 54)
      = of_int (round_half_even (18014397 / 2 ^ 54 / 2 powi (- 30 - 23))) * 2 powi (- 30 - 23)"
    by (rule round_to_grid_eval) (simp_all add: power_int_minus)
  also have "\<dots> = 9007198 / 2 ^ 53" by (simp add: round_half_even_def power_int_minus)
  finally show ?thesis .
qed

lemma bin_fails_near:
  assumes c: "0 < unat count" and q: "size_value n / size_value count \<le> 18014397 / 2 ^ 54"
  shows "\<not> fge (bin_mass n count) SMALL_EPSILON"
proof -
  have "round_to_grid (size_value n / size_value count) \<le> round_to_grid (18014397 / 2 ^ 54)"
    using q size_quotient_range(2) [OF c, of n] by (rule round_to_grid_mono) simp
  moreover have "(9007198 / 2 ^ 53 :: real) < 9007199 / 2 ^ 53" by simp
  ultimately have "round_to_grid (size_value n / size_value count) < round_to_grid (1 / 10 ^ 9)"
    using SMALL_EPSILON_lower unfolding round_to_grid_below_epsilon by linarith
  then show ?thesis by (simp add: bin_mass_value [OF c] SMALL_EPSILON_finite(1) fge_def)
qed

theorem exact_mass_counterexample:
  "(1 :: real) / 1000000001 < 1 / 10 ^ 9
   \<and> unat (1 :: 64 word) + unat (1000000000 :: 64 word) = unat (1000000001 :: 64 word)
   \<and> ProbabilityMassFunction \<lparr>get_bins = [(CHR ''A'', 1), (CHR ''B'', 1000000000)],
         get_count = 1000000001\<rparr> = Inr [(CHR ''A'', SMALL_EPSILON), (CHR ''B'', Finite 1)]
   \<and> (1 :: real) / 10 ^ 9 \<le> 18014413 / 18014412468125697
   \<and> unat (18014413 :: 64 word) + unat (18014412450111284 :: 64 word)
       = unat (18014412468125697 :: 64 word)
   \<and> ProbabilityMassFunction \<lparr>get_bins = [(CHR ''A'', 18014413), (CHR ''B'', 18014412450111284)],
         get_count = 18014412468125697\<rparr> = Inl AssertionFailure"
proof -
  have c: "0 < unat (1000000001 :: 64 word)" by simp
  have s1: "size_value (1 :: 64 word) = 1" by (simp add: size_value_small)
  have "representable (of_nat (unat (1000000000 :: 64 word)))" using representable_10_9 by simp
  then have s9: "size_value (1000000000 :: 64 word) = 10 ^ 9" by (simp add: size_value_representable)
  have mA: "bin_mass 1 1000000001 = SMALL_EPSILON"
    using bin_mass_value [OF c, of 1]
    by (simp add: s1 size_value_1000000001 SMALL_EPSILON_finite(1))
  have mB: "bin_mass 1000000000 1000000001 = Finite 1"
    using bin_mass_value [OF c, of 1000000000]
    by (simp add: s9 size_value_1000000001 round_to_grid_fixed)
  have okA: "fge SMALL_EPSILON SMALL_EPSILON" by (simp add: SMALL_EPSILON_finite(1) fge_def)
  have okB: "fge (Finite 1) SMALL_EPSILON" by (rule SMALL_EPSILON_below) (simp add: power_int_minus)
  have "masses_loop [(CHR ''A'', 1), (CHR ''B'', 1000000000)] 1000000001 []
      = Inr ([] @ map (\<lambda>(l, n). (l, bin_mass n 1000000001)) [(CHR ''A'', 1), (CHR ''B'', 1000000000)])"
    by (rule masses_loop_sorted) (simp_all add: mA mB okA okB)
  then have 1: "ProbabilityMassFunction \<lparr>get_bins = [(CHR ''A'', 1), (CHR ''B'', 1000000000)],
         get_count = 1000000001\<rparr> = Inr [(CHR ''A'', SMALL_EPSILON), (CHR ''B'', Finite 1)]"
    by (simp add: ProbabilityMassFunction_def mA mB)
  have c2: "0 < unat (18014412468125697 :: 64 word)" by simp
  have "size_value 18014413 / size_value 18014412468125697 \<le> 18014397 / 2 ^ 54"
    by (simp add: size_value_18014413 size_value_18014412468125697)
  with c2 have "\<not> fge (bin_mass 18014413 18014412468125697) SMALL_EPSILON" by (rule bin_fails_near)
  then have "masses_loop [(CHR ''A'', 18014413), (CHR ''B'', 18014412450111284)] 18014412468125697 []
      = Inl AssertionFailure"
    by (intro masses_loop_fails) simp
  then have 2: "ProbabilityMassFunction \<lparr>get_bins = [(CHR ''A'', 18014413), (CHR ''B'', 18014412450111284)],
         get_count = 18014412468125697\<rparr> = Inl AssertionFailure"
    by (simp add: ProbabilityMassFunction_def)
  have 3: "(1 :: real) / 1000000001 < 1 / 10 ^ 9" "(1 :: real) / 10 ^ 9 \<le> 18014413 / 18014412468125697"
    by simp_all
  have 4: "unat (1 :: 64 word) + unat (1000000000 :: 64 word) = unat (1000000001 :: 64 word)"
    "unat (18014413 :: 64 word) + unat (18014412450111284 :: 64 word)
       = unat (18014412468125697 :: 64 word)"
    by simp_all
  from 1 2 3 4 show ?thesis by (intro conjI)
qed

section \<open>The arithmetic of indices\<close>

lemma sdiv_nonneg: "0 \<le> a \<Longrightarrow> 0 < b \<Longrightarrow> (a::int) sdiv b = a div b"
  by (simp add: signed_divide_int_def sgn_if)

lemma smod_nonneg: "0 \<le> a \<Longrightarrow> 0 < b \<Longrightarrow> (a::int) smod b = a mod b"
  by (simp add: signed_modulo_int_def sgn_if)

lemma sint_range32: "- (2 ^ 31) \<le> sint (a :: cint) \<and> sint a < 2 ^ 31"
  using sint_ge [of a] sint_lt [of a] by simp

lemma sint_word_of_int32: "- (2 ^ 31) \<le> k \<Longrightarrow> k < 2 ^ 31 \<Longrightarrow> sint (word_of_int k :: cint) = k"
  by (simp add: sint_sbintrunc' signed_take_bit_int_eq_self)

lemma int_div_pos: "0 < sint b \<Longrightarrow> int_div a b = Inr (word_of_int (sint a sdiv sint b))"
  by (auto simp: int_div_def)

lemma int_mod_pos: "0 < sint b \<Longrightarrow> int_mod a b = Inr (word_of_int (sint a smod sint b))"
  by (auto simp: int_mod_def)

lemma div_le_self_int: "0 \<le> (a::int) \<Longrightarrow> 0 < b \<Longrightarrow> a div b \<le> a"
  by (metis div_by_1 zdiv_mono2 zero_less_one  int_one_le_iff_zero_less)

lemma sint_div_nonneg:
  assumes "0 \<le> sint (a::cint)" "0 < sint (b::cint)"
  shows "sint (word_of_int (sint a sdiv sint b) :: cint) = sint a div sint b"
proof -
  have "sint a div sint b \<le> sint a" using assms by (rule div_le_self_int)
  then have "sint a div sint b < 2 ^ 31" using sint_range32 [of a] by linarith
  moreover have "0 \<le> sint a div sint b" using assms by (simp add: pos_imp_zdiv_nonneg_iff)
  ultimately have "sint (word_of_int (sint a div sint b) :: cint) = sint a div sint b"
    by (intro sint_word_of_int32) linarith+
  then show ?thesis using assms by (simp add: sdiv_nonneg)
qed

lemma sint_mod_nonneg:
  assumes "0 \<le> sint (a::cint)" "0 < sint (b::cint)"
  shows "sint (word_of_int (sint a smod sint b) :: cint) = sint a mod sint b"
proof -
  have "sint a mod sint b < sint b" using assms by simp
  then have "sint a mod sint b < 2 ^ 31" using sint_range32 [of b] by linarith
  moreover have "0 \<le> sint a mod sint b" using assms by simp
  ultimately have "sint (word_of_int (sint a mod sint b) :: cint) = sint a mod sint b"
    by (intro sint_word_of_int32) linarith+
  then show ?thesis using assms by (simp add: smod_nonneg)
qed

lemma sint_mult_add32:
  assumes "- (2 ^ 31) \<le> sint a * sint b" "sint a * sint b < 2 ^ 31"
    "- (2 ^ 31) \<le> sint a * sint b + sint c" "sint a * sint b + sint c < 2 ^ 31"
  shows "sint (a * b + c :: cint) = sint a * sint b + sint c"
proof -
  have "sint (a * b) = sint a * sint b"
    using assms(1,2) by (simp add: sint_word_mult signed_take_bit_int_eq_self)
  then show ?thesis
    using assms(3,4) by (simp add: sint_word_add signed_take_bit_int_eq_self)
qed

subsection \<open>Transposing an index\<close>

lemma transpose_bound:
  assumes "0 < (w::int)" "0 \<le> i" "i < w * h"
  shows "0 \<le> (i mod w) * h + i div w" "(i mod w) * h + i div w < w * h" "i div w < h" "0 < h"
     "0 \<le> (i mod w) * h" "(i mod w) * h < w * h"
proof -
  show hpos: "0 < h" using assms
    by (metis linorder_not_less mult_nonneg_nonpos order_le_less_trans order_less_imp_le)
  have r: "0 \<le> i div w" using assms by (simp add: pos_imp_zdiv_nonneg_iff)
  have "w * (i div w) + i mod w = i" by (rule mult_div_mod_eq)
  moreover have "0 \<le> i mod w" using assms by simp
  ultimately have wl: "w * (i div w) \<le> i" by linarith
  show rh: "i div w < h"
  proof (rule ccontr)
    assume "\<not> i div w < h"
    then have "w * h \<le> w * (i div w)" using assms(1) by (simp add: mult_left_mono)
    then show False using wl assms(3) by linarith
  qed
  have c: "0 \<le> i mod w" "i mod w \<le> w - 1" using assms by simp_all
  show "0 \<le> (i mod w) * h" using c hpos by simp
  then show "0 \<le> (i mod w) * h + i div w" using r by linarith
  have "(i mod w) * h \<le> (w - 1) * h" using c hpos by (simp add: mult_right_mono)
  then have le: "(i mod w) * h \<le> w * h - h" by (simp add: algebra_simps)
  then show "(i mod w) * h + i div w < w * h" using rh by linarith
  show "(i mod w) * h < w * h" using le hpos by linarith
qed

lemma transpose_inverse:
  assumes "0 < (w::int)" "0 \<le> i" "i < w * h"
  shows "(((i mod w) * h + i div w) mod h) * w + ((i mod w) * h + i div w) div h = i"
proof -
  note b = transpose_bound [OF assms]
  have r: "0 \<le> i div w" using assms by (simp add: pos_imp_zdiv_nonneg_iff)
  have "((i mod w) * h + i div w) mod h = i div w"
    using b(3) r by (simp add: mod_pos_pos_trivial)
  moreover have "((i mod w) * h + i div w) div h = i mod w"
    using b(3,4) r by (simp add: div_pos_pos_trivial)
  ultimately show ?thesis by (simp add: mult.commute)
qed

lemma transposed_index32:
  fixes i w h :: cint
  assumes "0 \<le> sint i" "sint i < sint w * sint h" "sint w * sint h < 2 ^ 31"
  shows "0 < sint w \<Longrightarrow>
     sint (word_of_int (sint i smod sint w) * h + word_of_int (sint i sdiv sint w) :: cint)
       = (sint i mod sint w) * sint h + sint i div sint w"
proof -
  assume w: "0 < sint w"
  let ?r = "word_of_int (sint i sdiv sint w) :: cint"
  let ?c = "word_of_int (sint i smod sint w) :: cint"
  have r: "sint ?r = sint i div sint w" using assms(1) w by (rule sint_div_nonneg)
  have c: "sint ?c = sint i mod sint w" using assms(1) w by (rule sint_mod_nonneg)
  note b = transpose_bound [OF w assms(1,2)]
  have n: "- (2 ^ 31) \<le> (0::int)" by simp
  have p1: "- (2 ^ 31) \<le> sint ?c * sint h" unfolding c using b(5) n by (rule order_trans [rotated])
  have p2: "sint ?c * sint h < 2 ^ 31" unfolding c using b(6) assms(3) by (rule less_trans)
  have p3: "- (2 ^ 31) \<le> sint ?c * sint h + sint ?r" unfolding c r using b(1) n by (rule order_trans [rotated])
  have p4: "sint ?c * sint h + sint ?r < 2 ^ 31" unfolding c r using b(2) assms(3) by (rule less_trans)
  have "sint (?c * h + ?r) = sint ?c * sint h + sint ?r"
    using p1 p2 p3 p4 by (rule sint_mult_add32)
  then show ?thesis unfolding r c .
qed

section \<open>The depth difference of two pixels\<close>

text \<open>
  For a positive width, \<open>calculate_pixel_depth_difference\<close> succeeds and changes no
  memory cell other than the output pixel at the index \<open>col * height + row\<close> of the code's
  32-bit arithmetic, with \<open>row = rowMajorIndex / width\<close> and \<open>col = rowMajorIndex % width\<close>.
\<close>

lemma calculate_pixel_depth_difference_writes:
  assumes "0 < sint width"
  shows "\<exists>row col mem'.
      int_div rowMajorIndex width = Inr row \<and> int_mod rowMajorIndex width = Inr col
    \<and> calculate_pixel_depth_difference rowMajorIndex firstInputData secondInputData width height
          outputData mem = Inr mem'
    \<and> (\<forall>a. a \<noteq> ptr_index outputData (col * height + row) \<longrightarrow> mem' a = mem a)
    \<and> (fge (mem (ptr_index firstInputData rowMajorIndex)) (Finite 0)
         \<and> fge (mem (ptr_index secondInputData rowMajorIndex)) (Finite 0) \<longrightarrow>
       mem' (ptr_index outputData (col * height + row)) =
         fabs (fsub (mem (ptr_index firstInputData rowMajorIndex))
                    (mem (ptr_index secondInputData rowMajorIndex))))
    \<and> (flt (mem (ptr_index firstInputData rowMajorIndex)) (Finite 0)
         \<or> flt (mem (ptr_index secondInputData rowMajorIndex)) (Finite 0) \<longrightarrow>
       mem' (ptr_index outputData (col * height + row)) = Finite (- 1))
    \<and> (0 \<le> sint rowMajorIndex \<and> sint rowMajorIndex < sint width * sint height
         \<and> sint width * sint height < 2 ^ 31 \<longrightarrow>
       sint row = sint rowMajorIndex div sint width
       \<and> sint col = sint rowMajorIndex mod sint width
       \<and> sint (col * height + row) = sint col * sint height + sint row
       \<and> 0 \<le> sint (col * height + row)
       \<and> sint (col * height + row) < sint width * sint height)"
proof -
  let ?row = "word_of_int (sint rowMajorIndex sdiv sint width) :: cint"
  let ?col = "word_of_int (sint rowMajorIndex smod sint width) :: cint"
  let ?f = "mem (ptr_index firstInputData rowMajorIndex)"
  let ?s = "mem (ptr_index secondInputData rowMajorIndex)"
  let ?v = "if fge ?f (Finite 0) \<and> fge ?s (Finite 0) then fabs (fsub ?f ?s) else Finite (- 1)"
  let ?mem' = "mem (ptr_index outputData (?col * height + ?row) := ?v)"
  have d: "int_div rowMajorIndex width = Inr ?row" using assms by (rule int_div_pos)
  have m: "int_mod rowMajorIndex width = Inr ?col" using assms by (rule int_mod_pos)
  have run: "calculate_pixel_depth_difference rowMajorIndex firstInputData secondInputData width
      height outputData mem = Inr ?mem'"
    by (simp add: calculate_pixel_depth_difference_def d m Let_def)
  have neg: "flt ?f (Finite 0) \<or> flt ?s (Finite 0) \<Longrightarrow> \<not> (fge ?f (Finite 0) \<and> fge ?s (Finite 0))"
    by (cases ?f; cases ?s) (auto simp: fge_def)
  have range: "sint ?row = sint rowMajorIndex div sint width
       \<and> sint ?col = sint rowMajorIndex mod sint width
       \<and> sint (?col * height + ?row) = sint ?col * sint height + sint ?row
       \<and> 0 \<le> sint (?col * height + ?row)
       \<and> sint (?col * height + ?row) < sint width * sint height"
    if h: "0 \<le> sint rowMajorIndex" "sint rowMajorIndex < sint width * sint height"
        "sint width * sint height < 2 ^ 31"
  proof -
    have r: "sint ?row = sint rowMajorIndex div sint width" using h(1) assms by (rule sint_div_nonneg)
    have c: "sint ?col = sint rowMajorIndex mod sint width" using h(1) assms by (rule sint_mod_nonneg)
    have t: "sint (?col * height + ?row) = (sint rowMajorIndex mod sint width) * sint height
        + sint rowMajorIndex div sint width"
      using h assms by (rule transposed_index32)
    note b = transpose_bound [OF assms h(1,2)]
    show ?thesis using r c t b(1,2) by simp
  qed
  have frame: "\<forall>a. a \<noteq> ptr_index outputData (?col * height + ?row) \<longrightarrow> ?mem' a = mem a"
    by simp
  have v1: "fge ?f (Finite 0) \<and> fge ?s (Finite 0) \<longrightarrow>
      ?mem' (ptr_index outputData (?col * height + ?row)) = fabs (fsub ?f ?s)"
    by simp
  have v2: "flt ?f (Finite 0) \<or> flt ?s (Finite 0) \<longrightarrow>
      ?mem' (ptr_index outputData (?col * height + ?row)) = Finite (- 1)"
    using neg by auto
  have rg: "0 \<le> sint rowMajorIndex \<and> sint rowMajorIndex < sint width * sint height
         \<and> sint width * sint height < 2 ^ 31 \<longrightarrow>
       sint ?row = sint rowMajorIndex div sint width
       \<and> sint ?col = sint rowMajorIndex mod sint width
       \<and> sint (?col * height + ?row) = sint ?col * sint height + sint ?row
       \<and> 0 \<le> sint (?col * height + ?row)
       \<and> sint (?col * height + ?row) < sint width * sint height"
    using range by blast
  show ?thesis
    by (rule exI [of _ ?row], rule exI [of _ ?col], rule exI [of _ ?mem'])
       (intro conjI d m run frame v1 v2 rg)
qed

section \<open>Copying between the two image layouts\<close>

lemma copy_af_pixel_to_itm_swap:
  "copy_af_pixel_to_itm c inp w h out = copy_itm_pixel_to_af c inp h w out"
  by (rule ext) (auto simp: copy_af_pixel_to_itm_def copy_itm_pixel_to_af_def int_div_def int_mod_def)

lemma copy_af_to_itm_swap:
  "copy_af_to_itm inp w h out mem = copy_itm_to_af inp h w out mem"
  by (simp add: copy_af_to_itm_def copy_itm_to_af_def copy_af_pixel_to_itm_swap mult.commute)

lemma copy_itm_pixel_to_af_in_range:
  fixes mem :: "'a memory"
  assumes "0 < sint w" "0 \<le> sint i" "sint i < sint w * sint h" "sint w * sint h < 2 ^ 31"
  shows "copy_itm_pixel_to_af i inp w h out mem =
           Inr (mem (out + transposed (sint w) (sint h) (sint i) := mem (inp + sint i)))"
proof -
  have "sint (word_of_int (sint i smod sint w) * h + word_of_int (sint i sdiv sint w) :: cint)
       = (sint i mod sint w) * sint h + sint i div sint w"
    using assms(2,3,4,1) by (rule transposed_index32)
  then show ?thesis
    using assms(1)
    by (simp add: copy_itm_pixel_to_af_def int_div_pos int_mod_pos ptr_index_def transposed_def)
qed

lemma sint_of_nat32: "n < 2 ^ 31 \<Longrightarrow> sint (of_nat n :: cint) = int n"
proof -
  assume "n < 2 ^ 31"
  then have "int n < 2 ^ 31" by (metis of_nat_less_numeral_power_cancel_iff)
  moreover have "- (2 ^ 31) \<le> int n" by (rule order_trans [of _ 0]) simp_all
  ultimately have "sint (word_of_int (int n) :: cint) = int n" by (intro sint_word_of_int32)
  then show ?thesis by simp
qed

lemma transposed_bounds:
  assumes "0 < w" "0 \<le> i" "i < w * h"
  shows "0 \<le> transposed w h i" "transposed w h i < w * h"
  using transpose_bound(1,2) [OF assms] by (simp_all add: transposed_def)

lemma transposed_inverse:
  assumes "0 < w" "0 \<le> i" "i < w * h"
  shows "transposed h w (transposed w h i) = i"
  using transpose_inverse [OF assms] by (simp add: transposed_def)

lemma transposed_inj:
  assumes "0 < w" "0 \<le> i" "i < w * h" "0 \<le> j" "j < w * h" "transposed w h i = transposed w h j"
  shows "i = j"
proof -
  have "i = transposed h w (transposed w h i)"
    using transposed_inverse [OF assms(1,2,3)] by (rule sym)
  also have "\<dots> = transposed h w (transposed w h j)" by (simp only: assms(6))
  also have "\<dots> = j" using assms(1,4,5) by (rule transposed_inverse)
  finally show ?thesis .
qed

lemma for_each_copy_itm_pixel_to_af:
  fixes mem :: "'a memory"
  assumes w: "0 < sint w" and ov: "sint w * sint h < 2 ^ 31"
    and disj: "\<forall>j k. 0 \<le> j \<and> j < sint w * sint h \<and> 0 \<le> k \<and> k < sint w * sint h \<longrightarrow> out + j \<noteq> inp + k"
  shows "int n \<le> sint w * sint h \<Longrightarrow>
    \<exists>mem'. for_each_pixel (\<lambda>i. copy_itm_pixel_to_af i inp w h out) n mem = Inr mem'
      \<and> (\<forall>a. (\<forall>j. 0 \<le> j \<and> j < sint w * sint h \<longrightarrow> a \<noteq> out + j) \<longrightarrow> mem' a = mem a)
      \<and> (\<forall>i. 0 \<le> i \<and> i < int n \<longrightarrow> mem' (out + transposed (sint w) (sint h) i) = mem (inp + i))"
proof (induction n)
  case 0
  then show ?case by auto
next
  case (Suc n)
  let ?N = "sint w * sint h"
  let ?t = "transposed (sint w) (sint h)"
  from Suc.prems have n: "int n < ?N" by simp
  then have n31: "n < 2 ^ 31" using ov by (metis less_trans of_nat_less_numeral_power_cancel_iff)
  have sn: "sint (of_nat n :: cint) = int n" using n31 by (rule sint_of_nat32)
  from Suc.IH n obtain m where
    run: "for_each_pixel (\<lambda>i. copy_itm_pixel_to_af i inp w h out) n mem = Inr m"
    and frame: "\<And>a. (\<forall>j. 0 \<le> j \<and> j < ?N \<longrightarrow> a \<noteq> out + j) \<Longrightarrow> m a = mem a"
    and prev: "\<And>i. 0 \<le> i \<Longrightarrow> i < int n \<Longrightarrow> m (out + ?t i) = mem (inp + i)"
    by auto
  have step: "copy_itm_pixel_to_af (of_nat n) inp w h out m =
      Inr (m (out + ?t (int n) := m (inp + int n)))"
    using copy_itm_pixel_to_af_in_range [of w "of_nat n" h inp out m] w n ov by (simp add: sn)
  have src: "m (inp + int n) = mem (inp + int n)"
  proof (rule frame, intro allI impI)
    fix j assume j: "0 \<le> j \<and> j < ?N"
    have "0 \<le> j \<and> j < ?N \<and> 0 \<le> int n \<and> int n < ?N" using j n by simp
    then have "out + j \<noteq> inp + int n" using disj by blast
    then show "inp + int n \<noteq> out + j" by simp
  qed
  let ?m' = "m (out + ?t (int n) := m (inp + int n))"
  have tb: "0 \<le> ?t (int n)" "?t (int n) < ?N"
    using transposed_bounds [OF w, of "int n" "sint h"] n by simp_all
  have c1: "for_each_pixel (\<lambda>i. copy_itm_pixel_to_af i inp w h out) (Suc n) mem = Inr ?m'"
    by (simp add: run step)
  have c2: "\<forall>a. (\<forall>j. 0 \<le> j \<and> j < ?N \<longrightarrow> a \<noteq> out + j) \<longrightarrow> ?m' a = mem a"
  proof (intro allI impI)
    fix a assume h: "\<forall>j. 0 \<le> j \<and> j < ?N \<longrightarrow> a \<noteq> out + j"
    then have "a \<noteq> out + ?t (int n)" using tb by blast
    then show "?m' a = mem a" using frame [OF h] by simp
  qed
  have c3: "\<forall>i. 0 \<le> i \<and> i < int (Suc n) \<longrightarrow> ?m' (out + ?t i) = mem (inp + i)"
  proof (intro allI impI)
    fix i assume i: "0 \<le> i \<and> i < int (Suc n)"
    show "?m' (out + ?t i) = mem (inp + i)"
    proof (cases "i = int n")
      case True
      then show ?thesis by (simp add: src)
    next
      case False
      with i have lt: "i < int n" by simp
      then have "i < ?N" using n by linarith
      moreover have "0 \<le> int n" by simp
      ultimately have "?t i \<noteq> ?t (int n)"
        using transposed_inj [OF w, of i "sint h" "int n"] i n False by blast
      then have "?m' (out + ?t i) = m (out + ?t i)" by simp
      also have "\<dots> = mem (inp + i)" using i lt by (intro prev) simp_all
      finally show ?thesis .
    qed
  qed
  show ?case by (rule exI [of _ ?m']) (intro conjI c1 c2 c3)
qed

lemma sint_mult32:
  assumes "0 < sint (w::cint)" "0 < sint (h::cint)" "sint w * sint h < 2 ^ 31"
  shows "sint (h * w) = sint w * sint h"
proof -
  have "0 \<le> sint h * sint w" using assms(1,2) by simp
  then have "- (2 ^ 31) \<le> sint h * sint w" by (rule order_trans [rotated]) simp
  moreover have "sint h * sint w < 2 ^ 31" using assms(3) by (simp add: mult.commute)
  ultimately have "sint (h * w) = sint h * sint w"
    by (simp add: sint_word_mult signed_take_bit_int_eq_self)
  then show ?thesis by (simp add: mult.commute)
qed

lemma copy_itm_to_af_image:
  fixes mem :: "'a memory"
  assumes w: "0 < sint w" and h: "0 < sint h" and ov: "sint w * sint h < 2 ^ 31"
    and disj: "\<forall>j k. 0 \<le> j \<and> j < sint w * sint h \<and> 0 \<le> k \<and> k < sint w * sint h \<longrightarrow> out + j \<noteq> inp + k"
  shows "\<exists>mem'. copy_itm_to_af inp w h out mem = Inr mem'
      \<and> (\<forall>i. 0 \<le> i \<and> i < sint w * sint h \<longrightarrow>
            mem' (out + transposed (sint w) (sint h) i) = mem (inp + i))"
proof -
  let ?N = "sint w * sint h"
  have N: "sint (h * w) = ?N" using w h ov by (rule sint_mult32)
  have pos: "0 \<le> ?N" using w h by simp
  have "int (nat ?N) \<le> ?N" using pos by simp
  from for_each_copy_itm_pixel_to_af [OF w ov disj this, of mem]
  obtain mem' where
    run: "for_each_pixel (\<lambda>i. copy_itm_pixel_to_af i inp w h out) (nat ?N) mem = Inr mem'"
    and cells: "\<forall>i. 0 \<le> i \<and> i < int (nat ?N) \<longrightarrow>
       mem' (out + transposed (sint w) (sint h) i) = mem (inp + i)"
    by blast
  have "copy_itm_to_af inp w h out mem = Inr mem'"
    by (simp add: copy_itm_to_af_def N run)
  moreover have "\<forall>i. 0 \<le> i \<and> i < ?N \<longrightarrow> mem' (out + transposed (sint w) (sint h) i) = mem (inp + i)"
    using cells pos by simp
  ultimately show ?thesis by blast
qed

lemma pixel_roundtrip:
  fixes mem :: "'a memory"
  assumes w: "0 < sint w" and h: "0 < sint h" and ov: "sint w * sint h < 2 ^ 31"
    and i: "0 \<le> sint i" "sint i < sint w * sint h"
  shows "\<exists>cm mem1. copy_itm_pixel_to_af i itm w h af mem = Inr mem1
          \<and> 0 \<le> sint cm \<and> sint cm < sint w * sint h
          \<and> mem1 = mem (ptr_index af cm := mem (ptr_index itm i))
          \<and> copy_af_pixel_to_itm cm af w h out mem1 =
              Inr (mem1 (ptr_index out i := mem (ptr_index itm i)))"
proof -
  let ?t = "transposed (sint w) (sint h) (sint i)"
  let ?cm = "word_of_int ?t :: cint"
  have tb: "0 \<le> ?t" "?t < sint w * sint h" using transposed_bounds [OF w i] by simp_all
  have "- (2 ^ 31) \<le> ?t" using tb(1) by (rule order_trans [rotated]) simp
  moreover have "?t < 2 ^ 31" using tb(2) ov by (rule less_trans)
  ultimately have scm: "sint ?cm = ?t" by (rule sint_word_of_int32)
  let ?mem1 = "mem (ptr_index af ?cm := mem (ptr_index itm i))"
  have s1: "copy_itm_pixel_to_af i itm w h af mem = Inr ?mem1"
    using copy_itm_pixel_to_af_in_range [OF w i ov, of itm af mem] by (simp add: ptr_index_def scm)
  have ov': "sint h * sint w < 2 ^ 31" using ov by (simp add: mult.commute)
  have tb': "sint ?cm < sint h * sint w" using tb(2) by (simp add: scm mult.commute)
  have tb0: "0 \<le> sint ?cm" using tb(1) by (simp add: scm)
  have inv: "transposed (sint h) (sint w) (sint ?cm) = sint i"
    unfolding scm using w i by (rule transposed_inverse)
  have "copy_af_pixel_to_itm ?cm af w h out ?mem1 =
      Inr (?mem1 (out + transposed (sint h) (sint w) (sint ?cm) := ?mem1 (af + sint ?cm)))"
    unfolding copy_af_pixel_to_itm_swap using h tb0 tb' ov' by (rule copy_itm_pixel_to_af_in_range)
  then have s2: "copy_af_pixel_to_itm ?cm af w h out ?mem1 =
      Inr (?mem1 (ptr_index out i := mem (ptr_index itm i)))"
    by (simp add: inv ptr_index_def)
  show ?thesis
    by (rule exI [of _ ?cm], rule exI [of _ ?mem1]) (intro conjI s1 tb0 refl s2, simp add: scm tb(2))
qed

lemma image_roundtrip:
  fixes mem :: "'a memory"
  assumes w: "0 < sint w" and h: "0 < sint h" and ov: "sint w * sint h < 2 ^ 31"
    and disj: "\<forall>j k. 0 \<le> j \<and> j < sint w * sint h \<and> 0 \<le> k \<and> k < sint w * sint h \<longrightarrow>
        af + j \<noteq> itm + k \<and> af + j \<noteq> out + k"
  shows "\<exists>mem1 mem2. copy_itm_to_af itm w h af mem = Inr mem1
      \<and> copy_af_to_itm af w h out mem1 = Inr mem2
      \<and> (\<forall>k. 0 \<le> k \<and> k < sint w * sint h \<longrightarrow> mem2 (out + k) = mem (itm + k))"
proof -
  let ?N = "sint w * sint h"
  have d1: "\<forall>j k. 0 \<le> j \<and> j < ?N \<and> 0 \<le> k \<and> k < ?N \<longrightarrow> af + j \<noteq> itm + k"
    using disj by blast
  have d2: "\<forall>j k. 0 \<le> j \<and> j < sint h * sint w \<and> 0 \<le> k \<and> k < sint h * sint w \<longrightarrow> out + j \<noteq> af + k"
  proof (intro allI impI)
    fix j k assume "0 \<le> j \<and> j < sint h * sint w \<and> 0 \<le> k \<and> k < sint h * sint w"
    then have "0 \<le> k \<and> k < ?N \<and> 0 \<le> j \<and> j < ?N" by (simp add: mult.commute)
    then have "af + k \<noteq> out + j" using disj by blast
    then show "out + j \<noteq> af + k" by simp
  qed
  have ov': "sint h * sint w < 2 ^ 31" using ov by (simp add: mult.commute)
  from copy_itm_to_af_image [OF w h ov d1, of mem] obtain mem1 where
    r1: "copy_itm_to_af itm w h af mem = Inr mem1"
    and c1: "\<And>i. 0 \<le> i \<Longrightarrow> i < ?N \<Longrightarrow> mem1 (af + transposed (sint w) (sint h) i) = mem (itm + i)"
    by blast
  from copy_itm_to_af_image [OF h w ov' d2, of mem1] obtain mem2 where
    r2: "copy_itm_to_af af h w out mem1 = Inr mem2"
    and c2: "\<And>c. 0 \<le> c \<Longrightarrow> c < sint h * sint w \<Longrightarrow>
        mem2 (out + transposed (sint h) (sint w) c) = mem1 (af + c)"
    by blast
  have r2': "copy_af_to_itm af w h out mem1 = Inr mem2"
    using r2 by (simp add: copy_af_to_itm_swap)
  have "\<forall>k. 0 \<le> k \<and> k < ?N \<longrightarrow> mem2 (out + k) = mem (itm + k)"
  proof (intro allI impI)
    fix k assume k: "0 \<le> k \<and> k < ?N"
    let ?c = "transposed (sint w) (sint h) k"
    have cb: "0 \<le> ?c" "?c < ?N" using transposed_bounds [OF w, of k "sint h"] k by simp_all
    have inv: "transposed (sint h) (sint w) ?c = k" using w k by (intro transposed_inverse) simp_all
    have "mem2 (out + transposed (sint h) (sint w) ?c) = mem1 (af + ?c)"
      using cb by (intro c2) (simp_all add: mult.commute)
    then have "mem2 (out + k) = mem1 (af + ?c)" by (simp only: inv)
    also have "\<dots> = mem (itm + k)" using k by (intro c1) simp_all
    finally show "mem2 (out + k) = mem (itm + k)" .
  qed
  with r1 r2' show ?thesis by blast
qed

text \<open>
  C8 (as amended). For an image of positive width and height with at most \<open>2^31 - 1\<close>
  pixels and every row-major index \<open>i\<close> in \<open>[0, width * height)\<close>:
  \<open>copy_itm_pixel_to_af\<close> at \<open>i\<close> writes the pixel to a column-major index \<open>cm\<close> in
  \<open>[0, width * height)\<close>, and \<open>copy_af_pixel_to_itm\<close> at \<open>cm\<close> writes the original value
  to row-major index \<open>i\<close>. Hence, when the intermediate image overlaps neither the source
  nor the destination, copying a whole image to the column-major layout and back
  restores every pixel.
\<close>

theorem copy_itm_af_itm_roundtrip:
  fixes mem :: "'a memory"
  assumes "0 < sint w" and "0 < sint h" and "sint w * sint h < 2 ^ 31"
  shows "(\<forall>i. 0 \<le> sint i \<and> sint i < sint w * sint h \<longrightarrow>
            (\<exists>cm mem1. copy_itm_pixel_to_af i itm w h af mem = Inr mem1
                \<and> 0 \<le> sint cm \<and> sint cm < sint w * sint h
                \<and> mem1 = mem (ptr_index af cm := mem (ptr_index itm i))
                \<and> copy_af_pixel_to_itm cm af w h out mem1 =
                     Inr (mem1 (ptr_index out i := mem (ptr_index itm i)))))
       \<and> ((\<forall>j k. 0 \<le> j \<and> j < sint w * sint h \<and> 0 \<le> k \<and> k < sint w * sint h \<longrightarrow>
                af + j \<noteq> itm + k \<and> af + j \<noteq> out + k) \<longrightarrow>
            (\<exists>mem1 mem2. copy_itm_to_af itm w h af mem = Inr mem1
                \<and> copy_af_to_itm af w h out mem1 = Inr mem2
                \<and> (\<forall>k. 0 \<le> k \<and> k < sint w * sint h \<longrightarrow> mem2 (out + k) = mem (itm + k))))"
proof (intro conjI allI impI)
  fix i :: cint assume "0 \<le> sint i \<and> sint i < sint w * sint h"
  then show "\<exists>cm mem1. copy_itm_pixel_to_af i itm w h af mem = Inr mem1
                \<and> 0 \<le> sint cm \<and> sint cm < sint w * sint h
                \<and> mem1 = mem (ptr_index af cm := mem (ptr_index itm i))
                \<and> copy_af_pixel_to_itm cm af w h out mem1 =
                     Inr (mem1 (ptr_index out i := mem (ptr_index itm i)))"
    using assms by (intro pixel_roundtrip) simp_all
next
  assume "\<forall>j k. 0 \<le> j \<and> j < sint w * sint h \<and> 0 \<le> k \<and> k < sint w * sint h \<longrightarrow>
                af + j \<noteq> itm + k \<and> af + j \<noteq> out + k"
  with assms show "\<exists>mem1 mem2. copy_itm_to_af itm w h af mem = Inr mem1
                \<and> copy_af_to_itm af w h out mem1 = Inr mem2
                \<and> (\<forall>k. 0 \<le> k \<and> k < sint w * sint h \<longrightarrow> mem2 (out + k) = mem (itm + k))"
    by (rule image_roundtrip)
qed

theorem copy_itm_af_itm_roundtrip_witness:
  "(\<exists>cm mem1. copy_itm_pixel_to_af 5 0 3 2 100 (id :: int memory) = Inr mem1
        \<and> copy_af_pixel_to_itm cm 100 3 2 200 mem1 = Inr (mem1 (205 := 5)))
   \<and> (\<exists>mem1 mem2. copy_itm_to_af 0 3 2 100 (id :: int memory) = Inr mem1
        \<and> copy_af_to_itm 100 3 2 200 mem1 = Inr mem2
        \<and> mem2 200 = 0 \<and> mem2 203 = 3 \<and> mem2 205 = 5)"
proof -
  have a: "0 < sint (3::cint)" "0 < sint (2::cint)" "sint (3::cint) * sint (2::cint) < 2 ^ 31"
    by simp_all
  note t = copy_itm_af_itm_roundtrip [OF a, of 0 100 "id :: int memory" 200]
  have i: "0 \<le> sint (5::cint) \<and> sint (5::cint) < sint (3::cint) * sint (2::cint)" by simp
  from t [THEN conjunct1, THEN spec, THEN mp, OF i]
  have p: "\<exists>cm mem1. copy_itm_pixel_to_af 5 0 3 2 100 (id :: int memory) = Inr mem1
        \<and> copy_af_pixel_to_itm cm 100 3 2 200 mem1 = Inr (mem1 (205 := 5))"
    by (auto simp: ptr_index_def)
  have d: "\<forall>j k. 0 \<le> j \<and> j < sint (3::cint) * sint (2::cint) \<and> 0 \<le> k \<and> k < sint (3::cint) * sint (2::cint) \<longrightarrow>
                (100::int) + j \<noteq> 0 + k \<and> (100::int) + j \<noteq> 200 + k"
    by simp
  from t [THEN conjunct2, THEN mp, OF d]
  obtain mem1 mem2 where r: "copy_itm_to_af 0 3 2 100 (id :: int memory) = Inr mem1"
    "copy_af_to_itm 100 3 2 200 mem1 = Inr mem2"
    and c: "\<And>k. 0 \<le> k \<Longrightarrow> k < 6 \<Longrightarrow> mem2 (200 + k) = id (0 + k)"
    by auto
  have "mem2 200 = 0" "mem2 203 = 3" "mem2 205 = 5"
    using c [of 0] c [of 3] c [of 5] by simp_all
  with r p show ?thesis by blast
qed

text \<open>
  The restriction on the image size is needed: for a 65536 by 65536 image the index
  \<open>65535 * 65536\<close> of the pixel in row 0 and column 65535 does not fit into an \<^verbatim>\<open>int\<close>.
  It wraps around to \<open>-65536\<close>, and the copy back writes to row-major index \<open>-1\<close>
  instead of \<open>65535\<close>.
\<close>

theorem copy_itm_af_itm_roundtrip_counterexample:
  "copy_itm_pixel_to_af 65535 0 65536 65536 8589934592 (id :: int memory)
      = Inr (id (8589869056 := 65535))
   \<and> copy_af_pixel_to_itm (65535 * 65536 + 0) 8589934592 65536 65536 17179869184
        ((id :: int memory) (8589869056 := 65535))
      = Inr ((id (8589869056 := 65535)) (17179869183 := 65535))
   \<and> ((id :: int memory) (8589869056 := 65535, 17179869183 := 65535)) (17179869184 + 65535)
        \<noteq> (id :: int memory) (0 + 65535)"
  by (simp add: copy_itm_pixel_to_af_def copy_af_pixel_to_itm_def int_div_def int_mod_def
      ptr_index_def signed_divide_int_def signed_modulo_int_def)

lemma round32_int: "\<bar>k\<bar> < 2 ^ 24 \<Longrightarrow> round32 (of_int k) = Finite (of_int k)"
  by (rule round32_representable) (rule representable_int)

section \<open>The depth difference at the transposed index\<close>

text \<open>
  C9 (as amended). For a positive width, an image of at most \<open>2^31 - 1\<close> pixels (so that
  every index fits into an \<^verbatim>\<open>int\<close>) and every row-major index \<open>i\<close> in \<open>[0, width * height)\<close>:
  \<open>calculate_pixel_depth_difference\<close> succeeds; the transposed index
  \<open>(i mod width) * height + i div width\<close> lies in \<open>[0, width * height)\<close>; no memory cell other
  than the output pixel at that index changes, so no other output element is written;
  the pixel receives the absolute value of the binary32 difference of the two input pixels
  at \<open>i\<close> when both are greater than or equal to zero, and \<open>-1\<close> when either is less than
  zero; and when the output pixel written is not itself a pixel of one of the two input
  images, both input images are unchanged.
\<close>

theorem calculate_pixel_depth_difference_transposed:
  assumes w: "0 < sint width"
    and i: "0 \<le> sint rowMajorIndex" "sint rowMajorIndex < sint width * sint height"
    and ov: "sint width * sint height < 2 ^ 31"
  shows "\<exists>mem'.
      calculate_pixel_depth_difference rowMajorIndex firstInputData secondInputData width height
          outputData mem = Inr mem'
    \<and> 0 \<le> (sint rowMajorIndex mod sint width) * sint height + sint rowMajorIndex div sint width
    \<and> (sint rowMajorIndex mod sint width) * sint height + sint rowMajorIndex div sint width
          < sint width * sint height
    \<and> (\<forall>a. a \<noteq> outputData + ((sint rowMajorIndex mod sint width) * sint height
                        + sint rowMajorIndex div sint width) \<longrightarrow> mem' a = mem a)
    \<and> (fge (mem (firstInputData + sint rowMajorIndex)) (Finite 0)
         \<and> fge (mem (secondInputData + sint rowMajorIndex)) (Finite 0) \<longrightarrow>
       mem' (outputData + ((sint rowMajorIndex mod sint width) * sint height
                        + sint rowMajorIndex div sint width)) =
         fabs (fsub (mem (firstInputData + sint rowMajorIndex))
                    (mem (secondInputData + sint rowMajorIndex))))
    \<and> (flt (mem (firstInputData + sint rowMajorIndex)) (Finite 0)
         \<or> flt (mem (secondInputData + sint rowMajorIndex)) (Finite 0) \<longrightarrow>
       mem' (outputData + ((sint rowMajorIndex mod sint width) * sint height
                        + sint rowMajorIndex div sint width)) = Finite (- 1))
    \<and> ((\<forall>k. 0 \<le> k \<and> k < sint width * sint height \<longrightarrow>
            firstInputData + k \<noteq> outputData + ((sint rowMajorIndex mod sint width) * sint height
                        + sint rowMajorIndex div sint width)
          \<and> secondInputData + k \<noteq> outputData + ((sint rowMajorIndex mod sint width) * sint height
                        + sint rowMajorIndex div sint width)) \<longrightarrow>
        (\<forall>k. 0 \<le> k \<and> k < sint width * sint height \<longrightarrow>
            mem' (firstInputData + k) = mem (firstInputData + k)
          \<and> mem' (secondInputData + k) = mem (secondInputData + k)))"
proof -
  let ?t = "(sint rowMajorIndex mod sint width) * sint height + sint rowMajorIndex div sint width"
  from calculate_pixel_depth_difference_writes [OF w, of rowMajorIndex firstInputData
      secondInputData height outputData mem]
  obtain row col mem' where
    run: "calculate_pixel_depth_difference rowMajorIndex firstInputData secondInputData width
        height outputData mem = Inr mem'"
    and frame: "\<forall>a. a \<noteq> ptr_index outputData (col * height + row) \<longrightarrow> mem' a = mem a"
    and v1: "fge (mem (ptr_index firstInputData rowMajorIndex)) (Finite 0)
         \<and> fge (mem (ptr_index secondInputData rowMajorIndex)) (Finite 0) \<longrightarrow>
       mem' (ptr_index outputData (col * height + row)) =
         fabs (fsub (mem (ptr_index firstInputData rowMajorIndex))
                    (mem (ptr_index secondInputData rowMajorIndex)))"
    and v2: "flt (mem (ptr_index firstInputData rowMajorIndex)) (Finite 0)
         \<or> flt (mem (ptr_index secondInputData rowMajorIndex)) (Finite 0) \<longrightarrow>
       mem' (ptr_index outputData (col * height + row)) = Finite (- 1)"
    and rg: "0 \<le> sint rowMajorIndex \<and> sint rowMajorIndex < sint width * sint height
         \<and> sint width * sint height < 2 ^ 31 \<longrightarrow>
       sint row = sint rowMajorIndex div sint width
       \<and> sint col = sint rowMajorIndex mod sint width
       \<and> sint (col * height + row) = sint col * sint height + sint row
       \<and> 0 \<le> sint (col * height + row)
       \<and> sint (col * height + row) < sint width * sint height"
    by blast
  from rg i ov have all: "sint row = sint rowMajorIndex div sint width
       \<and> sint col = sint rowMajorIndex mod sint width
       \<and> sint (col * height + row) = sint col * sint height + sint row
       \<and> 0 \<le> sint (col * height + row)
       \<and> sint (col * height + row) < sint width * sint height"
    by blast
  have idx: "sint (col * height + row) = ?t"
  proof -
    have "sint (col * height + row) = sint col * sint height + sint row" using all by blast
    also have "sint col = sint rowMajorIndex mod sint width" using all by blast
    also have "sint row = sint rowMajorIndex div sint width" using all by blast
    finally show ?thesis .
  qed
  have b: "0 \<le> sint (col * height + row)" "sint (col * height + row) < sint width * sint height"
    using all by blast+
  have addr: "ptr_index outputData (col * height + row) = outputData + ?t"
    by (simp only: ptr_index_def idx)
  have c1: "0 \<le> ?t" and c2: "?t < sint width * sint height" using b unfolding idx by simp_all
  have c3: "\<forall>a. a \<noteq> outputData + ?t \<longrightarrow> mem' a = mem a" using frame unfolding addr .
  have c4: "fge (mem (firstInputData + sint rowMajorIndex)) (Finite 0)
         \<and> fge (mem (secondInputData + sint rowMajorIndex)) (Finite 0) \<longrightarrow>
       mem' (outputData + ?t) =
         fabs (fsub (mem (firstInputData + sint rowMajorIndex))
                    (mem (secondInputData + sint rowMajorIndex)))"
    using v1 unfolding addr by (simp only: ptr_index_def)
  have c5: "flt (mem (firstInputData + sint rowMajorIndex)) (Finite 0)
         \<or> flt (mem (secondInputData + sint rowMajorIndex)) (Finite 0) \<longrightarrow>
       mem' (outputData + ?t) = Finite (- 1)"
    using v2 unfolding addr by (simp only: ptr_index_def)
  have c6: "(\<forall>k. 0 \<le> k \<and> k < sint width * sint height \<longrightarrow>
            firstInputData + k \<noteq> outputData + ?t \<and> secondInputData + k \<noteq> outputData + ?t) \<longrightarrow>
        (\<forall>k. 0 \<le> k \<and> k < sint width * sint height \<longrightarrow>
            mem' (firstInputData + k) = mem (firstInputData + k)
          \<and> mem' (secondInputData + k) = mem (secondInputData + k))"
    using c3 by blast
  show ?thesis by (rule exI [of _ mem']) (intro conjI run c1 c2 c3 c4 c5 c6)
qed

theorem calculate_pixel_depth_difference_transposed_witness:
  "\<exists>mem'. calculate_pixel_depth_difference 5 0 100 3 2 200 (Finite \<circ> of_int) = Inr mem'
       \<and> mem' 205 = Finite 100 \<and> mem' 5 = Finite 5 \<and> mem' 105 = Finite 105
       \<and> mem' 204 = Finite 204"
proof -
  have w: "0 < sint (3::cint)" and i: "0 \<le> sint (5::cint)" "sint (5::cint) < sint (3::cint) * sint (2::cint)"
    and ov: "sint (3::cint) * sint (2::cint) < 2 ^ 31"
    by simp_all
  have r: "round32 (- 100) = Finite (- 100)" using round32_int [of "- 100"] by simp
  from calculate_pixel_depth_difference_transposed [OF w i ov, of 0 100 200 "Finite \<circ> of_int"]
  obtain mem' where run: "calculate_pixel_depth_difference 5 0 100 3 2 200 (Finite \<circ> of_int) = Inr mem'"
    and frame: "\<forall>a. a \<noteq> 205 \<longrightarrow> mem' a = (Finite \<circ> of_int) a"
    and v: "mem' 205 = Finite 100"
    by (auto simp: fge_def fsub_def r)
  from frame have "mem' 5 = Finite 5" "mem' 105 = Finite 105" "mem' 204 = Finite 204" by simp_all
  with run v show ?thesis by blast
qed

text \<open>
  Both restrictions are needed. For a 65536 by 65536 image the index \<open>65535 * 65536\<close> of
  the pixel in row 0 and column 65535 does not fit into an \<^verbatim>\<open>int\<close>: it wraps around to
  \<open>-65536\<close>, and the output element of that index is written instead. And when the output
  image is the first input image, the input pixel 5 is overwritten by the difference 3.
\<close>

theorem calculate_pixel_depth_difference_counterexample:
  "calculate_pixel_depth_difference 65535 (- 70000) 0 65536 65536 17179869184 (Finite \<circ> of_int)
     = Inr ((Finite \<circ> of_int) (17179869184 - 65536 := Finite (- 1)))
   \<and> calculate_pixel_depth_difference 0 5 2 1 1 5 (Finite \<circ> of_int)
     = Inr ((Finite \<circ> of_int) (5 := Finite 3))
   \<and> ((Finite \<circ> of_int) (5 := Finite 3)) (5 + 0) \<noteq> (Finite \<circ> of_int) (5 + 0)"
proof -
  have r: "round32 3 = Finite 3" using round32_int [of 3] by simp
  have d: "int_div 65535 65536 = Inr 0" "int_mod 65535 65536 = Inr 65535"
    "int_div 0 1 = Inr 0" "int_mod 0 1 = Inr 0"
    by (simp_all add: int_div_def int_mod_def signed_divide_int_def signed_modulo_int_def)
  have s: "sint (65535 * 65536 + 0 :: cint) = - 65536" by simp
  have 1: "calculate_pixel_depth_difference 65535 (- 70000) 0 65536 65536 17179869184 (Finite \<circ> of_int)
     = Inr ((Finite \<circ> of_int) (17179869184 - 65536 := Finite (- 1)))"
    unfolding calculate_pixel_depth_difference_def d
    by (simp add: ptr_index_def fge_def Let_def)
  have 2: "calculate_pixel_depth_difference 0 5 2 1 1 5 (Finite \<circ> of_int)
     = Inr ((Finite \<circ> of_int) (5 := Finite 3))"
    unfolding calculate_pixel_depth_difference_def d
    by (simp add: ptr_index_def fge_def fsub_def r Let_def)
  have 3: "((Finite \<circ> of_int) (5 := Finite 3)) (5 + 0) \<noteq> (Finite \<circ> of_int) (5 + 0)" by simp
  from 1 2 3 show ?thesis by (intro conjI)
qed

section \<open>Thresholding a pixel\<close>

text \<open>
  C10. \<open>set_pixel_on_threshold\<close> changes no memory cell other than
  \<^verbatim>\<open>outputData[pixelIndex]\<close>. For \<^verbatim>\<open>CO_GREATER\<close> that cell receives \<open>val\<close> if the
  input pixel (as it was before the call) is greater than the threshold and the input
  pixel otherwise; for \<^verbatim>\<open>CO_LESS\<close> it receives \<open>val\<close> if the input pixel is less
  than the threshold and the input pixel otherwise; for any other operator nothing is
  written at all. This holds whether or not the two arrays overlap.
\<close>

theorem set_pixel_on_threshold_frame:
  "(\<forall>a. a \<noteq> ptr_index outputData pixelIndex \<longrightarrow>
       set_pixel_on_threshold pixelIndex inputData op threshold val outputData mem a = mem a)
   \<and> (op = CO_GREATER \<longrightarrow>
       set_pixel_on_threshold pixelIndex inputData op threshold val outputData mem
         (ptr_index outputData pixelIndex) =
       (if fgt (mem (ptr_index inputData pixelIndex)) threshold then val
        else mem (ptr_index inputData pixelIndex)))
   \<and> (op = CO_LESS \<longrightarrow>
       set_pixel_on_threshold pixelIndex inputData op threshold val outputData mem
         (ptr_index outputData pixelIndex) =
       (if flt (mem (ptr_index inputData pixelIndex)) threshold then val
        else mem (ptr_index inputData pixelIndex)))
   \<and> (op \<noteq> CO_GREATER \<and> op \<noteq> CO_LESS \<longrightarrow>
       set_pixel_on_threshold pixelIndex inputData op threshold val outputData mem = mem)"
  by (cases op) (simp_all add: set_pixel_on_threshold_def Let_def)

theorem set_pixel_on_threshold_frame_witness:
  "set_pixel_on_threshold 2 0 CO_GREATER (Finite 1) (Finite 9) 100 (\<lambda>a. Finite (of_int a)) 102 = Finite 9
   \<and> set_pixel_on_threshold 2 0 CO_GREATER (Finite 1) (Finite 9) 100 (\<lambda>a. Finite (of_int a)) 101 = Finite 101
   \<and> set_pixel_on_threshold 2 0 CO_LESS (Finite 1) (Finite 9) 100 (\<lambda>a. Finite (of_int a)) 102 = Finite 2
   \<and> set_pixel_on_threshold 2 0 (CO_OTHER 7) (Finite 1) (Finite 9) 100 (\<lambda>a. Finite (of_int a)) 102 = Finite 102"
  using set_pixel_on_threshold_frame [of 100 2 0 CO_GREATER "Finite 1" "Finite 9" "\<lambda>a. Finite (of_int a)"]
    set_pixel_on_threshold_frame [of 100 2 0 CO_LESS "Finite 1" "Finite 9" "\<lambda>a. Finite (of_int a)"]
    set_pixel_on_threshold_frame [of 100 2 0 "CO_OTHER 7" "Finite 1" "Finite 9" "\<lambda>a. Finite (of_int a)"]
  by (simp add: ptr_index_def fgt_def)

section \<open>The size of the example store\<close>

lemma add_capacity [simp]: "capacity (add r e s) = capacity s"
  by (simp add: add_def split: option.splits)

lemma add_seen [simp]: "seen (add r e s) = seen s + 1"
  by (simp add: add_def split: option.splits)






section \<open>The entropy of a probability mass function\<close>

lemma log2_3_bounds: "84 / 53 < log 2 3" "log 2 3 < 65 / 41"
proof -
  have a: "log 2 ((2::real) ^ n) = real n" for n using log_nat_power [of 2 2 n] by simp
  have b: "log 2 ((3::real) ^ n) = real n * log 2 3" for n using log_nat_power [of 3 2 n] by simp
  have "(2::real) ^ 84 < 3 ^ 53" by simp
  then have "log 2 ((2::real) ^ 84) < log 2 ((3::real) ^ 53)"
    by (subst log_less_cancel_iff) simp_all
  then have "real 84 < real 53 * log 2 3" unfolding a b .
  then show "84 / 53 < log 2 3" by simp
  have "(3::real) ^ 41 < 2 ^ 65" by simp
  then have "log 2 ((3::real) ^ 41) < log 2 ((2::real) ^ 65)"
    by (subst log_less_cancel_iff) simp_all
  then have "real 41 * log 2 3 < real 65" unfolding a b .
  then show "log 2 3 < 65 / 41" by simp
qed

lemma log2_quarters: "log 2 (3 / 4) = log 2 3 - 2" "log 2 (1 / 4) = - 2"
proof -
  have 4: "log 2 4 = 2"
  proof -
    have "log 2 (2 ^ 2) = 2" by (subst log_nat_power) simp_all
    then show ?thesis by simp
  qed
  show "log 2 (3 / 4) = log 2 3 - 2" by (simp add: log_divide 4)
  show "log 2 (1 / 4) = - 2" by (simp add: log_divide 4)
qed

lemma fgt_pos [simp]: "fgt (Finite x) (Finite 0) = (0 < x)"
  by (simp add: fgt_def)

lemma round32_below_1':
  assumes "- 1 < x" "x < 1"
  shows "\<exists>r. round32 x = Finite r \<and> x - 1 / 33554432 \<le> r \<and> r \<le> x + 1 / 33554432"
proof -
  have "\<bar>x\<bar> < 1" using assms by simp
  from round32_below_1 [OF this] obtain r where
    r: "round32 x = Finite r" "\<bar>r - x\<bar> \<le> 1 / 2 ^ 25" by blast
  from r(2) have "\<bar>r - x\<bar> \<le> 1 / 33554432" by simp
  then have "x - 1 / 33554432 \<le> r \<and> r \<le> x + 1 / 33554432" by linarith
  with r(1) have "round32 x = Finite r \<and> x - 1 / 33554432 \<le> r \<and> r \<le> x + 1 / 33554432"
    by (rule conjI)
  then show ?thesis ..
qed

lemma round64_below_1':
  assumes "- 1 < x" "x < 1"
  shows "\<exists>r. round64 x = Finite64 r \<and> x - 1 / 18014398509481984 \<le> r
           \<and> r \<le> x + 1 / 18014398509481984"
proof -
  have "\<bar>x\<bar> < 1" using assms by simp
  from round64_below_1 [OF this] obtain r where
    r: "round64 x = Finite64 r" "\<bar>r - x\<bar> \<le> 1 / 2 ^ 54" by blast
  from r(2) have "\<bar>r - x\<bar> \<le> 1 / 18014398509481984" by simp
  then have "x - 1 / 18014398509481984 \<le> r \<and> r \<le> x + 1 / 18014398509481984" by linarith
  with r(1) have "round64 x = Finite64 r \<and> x - 1 / 18014398509481984 \<le> r
      \<and> r \<le> x + 1 / 18014398509481984"
    by (rule conjI)
  then show ?thesis ..
qed

lemma entropy_two_labels:
  assumes y1: "log2 (Finite64 (3 / 4)) = Finite64 y1" "\<bar>y1 - log 2 (3 / 4)\<bar> \<le> 1 / 10 ^ 6"
    and y2: "log2 (Finite64 (1 / 4)) = Finite64 y2" "\<bar>y2 - log 2 (1 / 4)\<bar> \<le> 1 / 10 ^ 6"
  shows "\<exists>H. calculate_entropy log2 [(a, Finite (3 / 4)), (b, Finite (1 / 4))] = Finite H
           \<and> \<bar>H - 811 / 1000\<bar> \<le> 1 / 2000"
proof -
  have "\<bar>y1 - (log 2 3 - 2)\<bar> \<le> 1 / 1000000" using y1(2) by (simp add: log2_quarters)
  then have b1: "84 / 53 - 2 - 1 / 1000000 \<le> y1" "y1 \<le> 65 / 41 - 2 + 1 / 1000000"
    using log2_3_bounds by linarith+
  have "\<bar>y2 - (- 2)\<bar> \<le> 1 / 1000000" using y2(2) by (simp add: log2_quarters)
  then have b2: "- 2 - 1 / 1000000 \<le> y2" "y2 \<le> - 2 + 1 / 1000000" by linarith+
  have "- 1 < 3 / 4 * y1" "3 / 4 * y1 < 1" using b1 by linarith+
  from round64_below_1' [OF this] obtain t1 where
    t1: "round64 (3 / 4 * y1) = Finite64 t1" "3 / 4 * y1 - 1 / 18014398509481984 \<le> t1"
      "t1 \<le> 3 / 4 * y1 + 1 / 18014398509481984" by blast
  have "- 1 < 0 + t1" "0 + t1 < 1" using t1(2,3) b1 by linarith+
  from round64_below_1' [OF this] obtain s1 where
    s1: "round64 (0 + t1) = Finite64 s1" "0 + t1 - 1 / 18014398509481984 \<le> s1"
      "s1 \<le> 0 + t1 + 1 / 18014398509481984" by blast
  have "- 1 < s1" "s1 < 1" using s1(2,3) t1(2,3) b1 by linarith+
  from round32_below_1' [OF this] obtain e1 where
    e1: "round32 s1 = Finite e1" "s1 - 1 / 33554432 \<le> e1" "e1 \<le> s1 + 1 / 33554432" by blast
  have "- 1 < 1 / 4 * y2" "1 / 4 * y2 < 1" using b2 by linarith+
  from round64_below_1' [OF this] obtain t2 where
    t2: "round64 (1 / 4 * y2) = Finite64 t2" "1 / 4 * y2 - 1 / 18014398509481984 \<le> t2"
      "t2 \<le> 1 / 4 * y2 + 1 / 18014398509481984" by blast
  have c1: "- 31135 / 100000 \<le> y1 * 3 / 4" "y1 * 3 / 4 \<le> - 31095 / 100000"
    using b1 by linarith+
  have c2: "- 31136 / 100000 \<le> t1" "t1 \<le> - 31094 / 100000"
    using c1 t1(2,3) by linarith+
  have c3: "- 31137 / 100000 \<le> s1" "s1 \<le> - 31093 / 100000"
    using c2 s1(2,3) by linarith+
  have lo1: "- 3114 / 10000 \<le> e1" and hi1: "e1 \<le> - 3109 / 10000"
    using c3 e1(2,3) by linarith+
  have lo2: "- 1 / 2 - 1 / 1000000 \<le> t2" and hi2: "t2 \<le> - 1 / 2 + 1 / 1000000"
    using t2(2,3) b2 by linarith+
  have "- 1 < e1 + t2" "e1 + t2 < 1" using lo1 hi1 lo2 hi2 by linarith+
  from round64_below_1' [OF this] obtain s2 where
    s2: "round64 (e1 + t2) = Finite64 s2" "e1 + t2 - 1 / 18014398509481984 \<le> s2"
      "s2 \<le> e1 + t2 + 1 / 18014398509481984" by blast
  have "- 1 < s2" "s2 < 1" using s2(2,3) lo1 hi1 lo2 hi2 by linarith+
  from round32_below_1' [OF this] obtain e2 where
    e2: "round32 s2 = Finite e2" "s2 - 1 / 33554432 \<le> e2" "e2 \<le> s2 + 1 / 33554432" by blast
  have g: "fgt (Finite (3 / 4)) (Finite 0)" "fgt (Finite (1 / 4)) (Finite 0)" by simp_all
  have "calculate_entropy log2 [(a, Finite (3 / 4)), (b, Finite (1 / 4))] = Finite (- e2)"
    by (simp only: calculate_entropy_def entropy_loop.simps g if_True double_of_float.simps
        y1(1) y2(1) dmul.simps dadd.simps t1(1) s1(1) float_of_double.simps e1(1) t2(1) s2(1) e2(1)
        fneg.simps)
  moreover have c4: "- 81141 / 100000 \<le> s2" "s2 \<le> - 81089 / 100000"
    using s2(2,3) lo1 hi1 lo2 hi2 by linarith+
  have "- e2 - 811 / 1000 \<le> 1 / 2000" "- (1 / 2000) \<le> - e2 - 811 / 1000"
    using e2(2,3) c4 by linarith+
  then have "\<bar>- e2 - 811 / 1000\<bar> \<le> 1 / 2000" by linarith
  ultimately show ?thesis by blast
qed

lemma pmf_3_1:
  "ProbabilityMassFunction \<lparr>get_bins = [(CHR ''A'', 3), (CHR ''B'', 1)], get_count = 4\<rparr>
     = Inr [(CHR ''A'', Finite (3 / 4)), (CHR ''B'', Finite (1 / 4))]"
proof -
  have "masses_loop [(CHR ''A'', 3), (CHR ''B'', 1)] 4 []
      = Inr ([] @ map (\<lambda>(l, n). (l, bin_mass n 4)) [(CHR ''A'', 3), (CHR ''B'', 1)])"
    by (rule masses_loop_sorted) (simp_all add: bin_mass_3_4 bin_mass_1_4 fge_3_4)
  then show ?thesis by (simp add: ProbabilityMassFunction_def bin_mass_3_4 bin_mass_1_4)
qed

text \<open>
  C6. The histogram of the counts \<open>{A: 3, B: 1}\<close> yields the probability mass function
  \<open>{A: 0.75, B: 0.25}\<close>, both masses exact, and \<open>calculate_entropy\<close> returns for it a finite
  value within \<open>0.0005\<close> of \<open>0.811\<close>, for every library function \<^verbatim>\<open>log2\<close> whose results at
  \<open>0.75\<close> and \<open>0.25\<close> are finite and within \<open>10\<^sup>-\<^sup>6\<close> of the logarithms.
\<close>

theorem histogram_3_1_entropy:
  assumes "\<exists>y. log2 (Finite64 (3 / 4)) = Finite64 y \<and> \<bar>y - log 2 (3 / 4)\<bar> \<le> 1 / 10 ^ 6"
    and "\<exists>y. log2 (Finite64 (1 / 4)) = Finite64 y \<and> \<bar>y - log 2 (1 / 4)\<bar> \<le> 1 / 10 ^ 6"
  shows "ProbabilityMassFunction \<lparr>get_bins = [(CHR ''A'', 3), (CHR ''B'', 1)], get_count = 4\<rparr>
           = Inr [(CHR ''A'', Finite (3 / 4)), (CHR ''B'', Finite (1 / 4))]
       \<and> (\<exists>H. calculate_entropy log2 [(CHR ''A'', Finite (3 / 4)), (CHR ''B'', Finite (1 / 4))]
                = Finite H
             \<and> \<bar>H - 811 / 1000\<bar> \<le> 1 / 2000)"
proof -
  from assms obtain y1 y2 where
    "log2 (Finite64 (3 / 4)) = Finite64 y1" "\<bar>y1 - log 2 (3 / 4)\<bar> \<le> 1 / 10 ^ 6"
    "log2 (Finite64 (1 / 4)) = Finite64 y2" "\<bar>y2 - log 2 (1 / 4)\<bar> \<le> 1 / 10 ^ 6"
    by blast
  then have "\<exists>H. calculate_entropy log2 [(CHR ''A'', Finite (3 / 4)), (CHR ''B'', Finite (1 / 4))]
                = Finite H \<and> \<bar>H - 811 / 1000\<bar> \<le> 1 / 2000"
    by (rule entropy_two_labels)
  with pmf_3_1 show ?thesis by blast
qed

lemma log2_correctly_rounded_close:
  assumes "0 < x" "\<bar>log 2 x\<bar> < 1"
  shows "\<exists>y. log2_correctly_rounded (Finite64 x) = Finite64 y \<and> \<bar>y - log 2 x\<bar> \<le> 1 / 10 ^ 6"
proof -
  from round64_below_1 [OF assms(2)] obtain r where
    "round64 (log 2 x) = Finite64 r" "\<bar>r - log 2 x\<bar> \<le> 1 / 2 ^ 54" by blast
  moreover have "(1::real) / 2 ^ 54 \<le> 1 / 10 ^ 6" by simp
  ultimately have "round64 (log 2 x) = Finite64 r \<and> \<bar>r - log 2 x\<bar> \<le> 1 / 10 ^ 6" by linarith
  then show ?thesis using assms(1) by auto
qed

theorem histogram_3_1_entropy_witness:
  "ProbabilityMassFunction \<lparr>get_bins = [(CHR ''A'', 3), (CHR ''B'', 1)], get_count = 4\<rparr>
           = Inr [(CHR ''A'', Finite (3 / 4)), (CHR ''B'', Finite (1 / 4))]
   \<and> (\<exists>H. calculate_entropy log2_correctly_rounded
              [(CHR ''A'', Finite (3 / 4)), (CHR ''B'', Finite (1 / 4))] = Finite H
         \<and> \<bar>H - 811 / 1000\<bar> \<le> 1 / 2000)"
proof -
  have "\<bar>log 2 (3 / 4)\<bar> < 1" using log2_3_bounds by (simp add: log2_quarters)
  then have 1: "\<exists>y. log2_correctly_rounded (Finite64 (3 / 4)) = Finite64 y
      \<and> \<bar>y - log 2 (3 / 4)\<bar> \<le> 1 / 10 ^ 6"
    by (intro log2_correctly_rounded_close) simp
  have "round64 (- 2) = Finite64 (- 2)"
    using round64_representable64 [OF representable64_int, of "- 2"] by simp
  then have 2: "\<exists>y. log2_correctly_rounded (Finite64 (1 / 4)) = Finite64 y
      \<and> \<bar>y - log 2 (1 / 4)\<bar> \<le> 1 / 10 ^ 6"
    by (simp add: log2_quarters)
  from histogram_3_1_entropy [OF 1 2] show ?thesis .
qed

section \<open>Results that are binary32 values, and exact sums\<close>

lemma round_to_grid_rational: "round_to_grid x \<in> \<rat>"
proof -
  have "(2::real) powi e \<in> \<rat>" for e
    by (cases "0 \<le> e") (simp_all add: power_int_def Rats_power Rats_inverse)
  then show ?thesis by (simp add: round_to_grid_def Rats_mult)
qed

lemma round32_rational: "round32 x = Finite g \<Longrightarrow> g \<in> \<rat>"
  using round_to_grid_rational [of x] by (auto simp: round32_def Let_def split: if_splits)

lemma float_of_double_rational: "float_of_double d = Finite g \<Longrightarrow> g \<in> \<rat>"
  by (cases d) (auto dest: round32_rational)

lemma entropy_loop_rational:
  "entropy_loop log2 m acc = Finite H \<Longrightarrow> (\<And>x. acc = Finite x \<Longrightarrow> x \<in> \<rat>) \<Longrightarrow> H \<in> \<rat>"
proof (induction m arbitrary: acc)
  case Nil
  then show ?case by simp
next
  case (Cons b m)
  obtain l p where b: "b = (l, p)" by (cases b)
  let ?acc = "if fgt p (Finite 0)
        then float_of_double
               (dadd (double_of_float acc) (dmul (double_of_float p) (log2 (double_of_float p))))
        else acc"
  have "entropy_loop log2 m ?acc = Finite H" using Cons.prems(1) by (simp add: b)
  moreover have "x \<in> \<rat>" if "?acc = Finite x" for x
    using that Cons.prems(2) float_of_double_rational by (auto split: if_splits)
  ultimately show ?case by (rule Cons.IH)
qed

lemma calculate_entropy_rational:
  assumes "calculate_entropy log2 m = Finite H"
  shows "H \<in> \<rat>"
proof -
  from assms obtain x where x: "entropy_loop log2 m (Finite 0) = Finite x" "H = - x"
    unfolding calculate_entropy_def by (cases "entropy_loop log2 m (Finite 0)") auto
  have "x \<in> \<rat>" using x(1) by (rule entropy_loop_rational) simp
  then show ?thesis using x(2) by simp
qed

lemma log2_3_irrational: "log 2 3 \<notin> \<rat>"
proof
  assume "log 2 3 \<in> \<rat>"
  then obtain m n :: nat where mn: "n \<noteq> 0" "\<bar>log 2 3\<bar> = real m / real n"
    by (rule Rats_abs_nat_div_natE)
  have pos: "0 < log 2 3" using log2_3_bounds(1) by linarith
  then have "log 2 3 * real n = real m" using mn by (simp add: field_simps)
  then have "log 2 (3 ^ n) = real m" using log_nat_power [of 3 2 n] by (simp add: mult.commute)
  then have "2 powr log 2 ((3::real) ^ n) = 2 powr real m" by simp
  then have "(3::real) ^ n = 2 powr real m" by simp
  then have "(3::real) ^ n = 2 ^ m" by (simp add: powr_realpow)
  then have e: "(3::nat) ^ n = 2 ^ m" by (metis of_nat_eq_iff of_nat_numeral of_nat_power)
  have "m \<noteq> 0"
  proof
    assume "m = 0"
    then have "\<bar>log 2 3\<bar> = 0" using mn(2) by simp
    then show False using pos by simp
  qed
  then have "even ((2::nat) ^ m)" by simp
  moreover have "odd ((3::nat) ^ n)" by simp
  ultimately show False using e by simp
qed




section \<open>The entropy of the probability mass functions of the constructor\<close>

lemma mass_range:
  assumes c: "0 < unat count" and ok: "fge (bin_mass n count) SMALL_EPSILON"
    and le: "unat n \<le> unat count"
  shows "\<exists>x. bin_mass n count = Finite x \<and> 2 powi (- 30) \<le> x \<and> x \<le> 1 \<and> representable x"
proof -
  let ?q = "size_value n / size_value count"
  have v: "bin_mass n count = Finite (round_to_grid ?q)" using c by (rule bin_mass_value)
  from bin_mass_ok [OF c ok] obtain x where "bin_mass n count = Finite x" "2 powi (- 30) \<le> x"
    by blast
  then have lo: "2 powi (- 30) \<le> round_to_grid ?q" unfolding v by simp
  have b: "1 \<le> size_value count" using c by (rule size_value_ge_1)
  have "size_value n \<le> size_value count" using le by (rule size_value_mono)
  then have "?q \<le> 1" using b by (simp add: divide_le_eq)
  with representable_1 have hi: "round_to_grid ?q \<le> 1" by (rule round_to_grid_le)
  have "\<bar>?q\<bar> < 2 ^ 127" using c by (rule size_quotient_range)
  then have "representable (round_to_grid ?q)" by (rule representable_round_to_grid)
  with v lo hi show ?thesis by blast
qed

lemma representable_3_4: "representable (3 / 4)"
proof -
  have "representable (of_int 3 * 2 powi (- 2))" by (rule representable_scaled) simp_all
  then show ?thesis by (simp add: power_int_minus)
qed

lemma mass_half:
  assumes c: "0 < unat count" and le: "2 * unat n \<le> unat count"
  shows "round_to_grid (size_value n / size_value count) \<le> 3 / 4"
proof -
  let ?r = "of_nat (unat n) / of_nat (unat count) :: real"
  have "2 * real (unat n) \<le> real (unat count)" using le by linarith
  then have "?r \<le> 1 / 2" using c by (simp add: divide_le_eq del: of_nat_unat)
  then have "?r * (1 + 1 / 4000000) \<le> 1 / 2 * (1 + 1 / 4000000)"
    by (rule mult_right_mono) simp
  moreover have "(1 / 2 * (1 + 1 / 4000000) :: real) \<le> 3 / 4" by simp
  ultimately have "?r * (1 + 1 / 4000000) \<le> 3 / 4" by (rule order_trans)
  with size_quotient_bounds(2) [OF c, of n] have "size_value n / size_value count \<le> 3 / 4"
    by (rule order_trans)
  with representable_3_4 show ?thesis by (rule round_to_grid_le)
qed

lemma mass_one:
  assumes "0 < unat n"
  shows "bin_mass n n = Finite 1"
proof -
  have "1 \<le> size_value n" using assms by (rule size_value_ge_1)
  then have "size_value n / size_value n = 1" by simp
  then show ?thesis
    using bin_mass_value [OF assms, of n] round_to_grid_fixed [OF representable_1] by simp
qed

lemma representable_below_1:
  assumes r: "representable x" and x: "x < 1"
  shows "x \<le> 1 - 1 / 2 ^ 24"
proof -
  from r obtain k e where g: "- 126 \<le> e" "e \<le> 127" "\<bar>k\<bar> < 2 ^ 24"
    "x = of_int k * 2 powi (e - 23)"
    unfolding representable_def by blast
  show ?thesis
  proof (cases "e \<le> - 2")
    case True
    have "x \<le> \<bar>x\<bar>" by simp
    also have "\<dots> = \<bar>of_int k\<bar> * 2 powi (e - 23)" by (simp add: g(4) abs_mult)
    also have "\<dots> \<le> 2 ^ 24 * 2 powi (- 25)"
    proof (rule mult_mono)
      show "\<bar>of_int k :: real\<bar> \<le> 2 ^ 24" using g(3)
        by (metis of_int_abs of_int_le_numeral_power_cancel_iff less_imp_le)
      show "(2::real) powi (e - 23) \<le> 2 powi (- 25)" using True by (intro powi_mono) simp
    qed simp_all
    also have "\<dots> = 1 / 2" by (simp add: power_int_minus)
    finally show ?thesis by simp
  next
    case False
    then have e: "0 \<le> e + 1" by simp
    have "e - 23 - (- 24) = e + 1" by simp
    then have "(2::real) powi (e - 23) = 2 powi (e + 1) * 2 powi (- 24)"
      using powi_split [of "e - 23" "- 24"] by (simp only:)
    also have "(2::real) powi (e + 1) = of_int (2 ^ nat (e + 1))" using e by (rule powi_nat)
    finally have "x = of_int (k * 2 ^ nat (e + 1)) * 2 powi (- 24)" by (simp add: g(4))
    then have xj: "x = of_int (k * 2 ^ nat (e + 1)) / 2 ^ 24"
      by (simp add: power_int_minus field_simps)
    define j where "j = k * 2 ^ nat (e + 1)"
    have "of_int j / 2 ^ 24 < (1::real)" using x xj by (simp add: j_def)
    then have "(of_int j :: real) < 2 ^ 24" by (simp add: divide_less_eq)
    then have "j < 2 ^ 24" by (metis of_int_less_numeral_power_cancel_iff)
    then have "j \<le> 2 ^ 24 - 1" by simp
    then have "(of_int j :: real) \<le> of_int (2 ^ 24 - 1)" by (simp only: of_int_le_iff)
    then have "(of_int j :: real) / 2 ^ 24 \<le> of_int (2 ^ 24 - 1) / 2 ^ 24"
      by (rule divide_right_mono) simp
    then show ?thesis unfolding xj j_def [symmetric] by simp
  qed
qed

lemma log2_below_1:
  assumes "0 < x" "x \<le> 1 - 1 / 2 ^ 24"
  shows "log 2 x \<le> - (1 / 2 ^ 24)"
proof -
  have l: "ln x \<le> x - 1" using assms(1) by (rule ln_le_minus_one)
  then have neg: "ln x \<le> - (1 / 2 ^ 24)" using assms(2) by linarith
  have two: "0 < ln (2::real)" "ln (2::real) < 1" using ln_2_less_1 by simp_all
  have "ln x \<le> 0" using neg by (rule order_trans) simp
  then have "ln x * 1 \<le> ln x * ln 2" using two(2) by (intro mult_left_mono_neg) simp_all
  then have "ln x / ln 2 \<le> ln x" using two(1) by (simp add: divide_le_eq)
  then show ?thesis using neg by (simp add: log_def)
qed

lemma log2_mass_range:
  assumes "2 powi (- 30) \<le> x" "x \<le> 1"
  shows "- 30 \<le> log 2 x" "log 2 x \<le> 0"
proof -
  have p: "(0::real) < 2 powi (- 30)" by simp
  then have x: "0 < x" using assms(1) by linarith
  have "log 2 (2 powi (- 30)) \<le> log 2 x" using p assms(1) by (intro log_mono) simp_all
  moreover have "log 2 ((2::real) powi (- 30)) = - 30"
  proof -
    have "(2::real) powi (- 30) = 1 / 2 ^ 30" by (simp add: power_int_minus field_simps)
    moreover have "log 2 ((2::real) ^ 30) = 30" using log_nat_power [of 2 2 30] by simp
    ultimately show ?thesis by (simp add: log_divide)
  qed
  ultimately show "- 30 \<le> log 2 x" by simp
  show "log 2 x \<le> 0" using x assms(2) by simp
qed

lemma round64_between:
  assumes a: "representable64 a" "- (2 ^ 34) \<le> a" and b: "representable64 b" "b \<le> 0"
    and v: "a \<le> v" "v \<le> b"
  shows "\<exists>s. round64 v = Finite64 s \<and> a \<le> s \<and> s \<le> b"
proof -
  have "- (2 ^ 34) \<le> v" "v \<le> 0" using a(2) b(2) v by linarith+
  then have "\<bar>v\<bar> \<le> 2 ^ 34" by (simp add: abs_le_iff)
  also have "(2::real) ^ 34 < 2 ^ 1023" by (rule power_strict_increasing) simp_all
  finally have "round64 v = Finite64 (round_to_grid64 v)" by (rule round64_finite)
  moreover have "a \<le> round_to_grid64 v" using a(1) v(1) by (rule round_to_grid64_ge)
  moreover have "round_to_grid64 v \<le> b" using b(1) v(2) by (rule round_to_grid64_le)
  ultimately show ?thesis by blast
qed

lemma round_to_grid_stagnates: "round_to_grid (- 8589934623) = - 8589934592"
proof -
  have "round_to_grid (- 8589934623)
      = of_int (round_half_even (- 8589934623 / 2 powi (33 - 23))) * 2 powi (33 - 23)"
    by (rule round_to_grid_eval) simp_all
  also have "\<dots> = - 8589934592" by (simp add: round_half_even_def)
  finally show ?thesis .
qed

lemma round32_between:
  assumes b: "representable b" "b \<le> 0" and s: "- 8589934623 \<le> s" "s \<le> b"
  shows "\<exists>e'. round32 s = Finite e' \<and> - 8589934592 \<le> e' \<and> e' \<le> b"
proof -
  have "- 8589934623 \<le> s" "s \<le> 0" using b(2) s by linarith+
  then have "\<bar>s\<bar> \<le> 8589934623" by (simp add: abs_le_iff)
  also have "(8589934623::real) < 2 ^ 127" by simp
  finally have fin: "\<bar>s\<bar> < 2 ^ 127" .
  then have "round32 s = Finite (round_to_grid s)" by (rule round32_finite)
  moreover have "round_to_grid (- 8589934623) \<le> round_to_grid s"
    using s(1) fin by (intro round_to_grid_mono) simp_all
  then have "- 8589934592 \<le> round_to_grid s" by (simp only: round_to_grid_stagnates)
  moreover have "round_to_grid s \<le> b" using b(1) s(2) by (rule round_to_grid_le)
  ultimately show ?thesis by blast
qed

lemma representable64_bounds:
  "representable64 (- 31)" "representable64 (- 8589934623)"
  using representable64_int [of "- 31"] representable64_int [of "- 8589934623"] by simp_all

lemma entropy_sum_step:
  assumes b: "representable b" "representable64 b" "b \<le> 0"
    and t: "- 31 \<le> t" and e: "- 8589934592 \<le> e" and le: "e + t \<le> b"
  shows "\<exists>e'. float_of_double (dadd (Finite64 e) (Finite64 t)) = Finite e'
           \<and> - 8589934592 \<le> e' \<and> e' \<le> b"
proof -
  have lo: "- 8589934623 \<le> e + t" using t e by linarith
  have "(- 8589934623 :: real) = - (2 ^ 34) + 8589934561" by simp
  then have "- (2 ^ 34) \<le> (- 8589934623 :: real)" by linarith
  with representable64_bounds(2) obtain s where
    s: "round64 (e + t) = Finite64 s" "- 8589934623 \<le> s" "s \<le> b"
    using round64_between [OF _ _ b(2,3) lo le] by blast
  from round32_between [OF b(1,3) s(2,3)] obtain e' where
    "round32 s = Finite e'" "- 8589934592 \<le> e'" "e' \<le> b" by blast
  then show ?thesis by (simp add: s(1))
qed

lemma entropy_product:
  assumes u: "representable64 u" "u \<le> 0" and x: "0 \<le> x" "x \<le> 1" and y: "- 31 \<le> y" "y \<le> 0"
    and le: "x * y \<le> u"
  shows "\<exists>t. dmul (Finite64 x) (Finite64 y) = Finite64 t \<and> - 31 \<le> t \<and> t \<le> u"
proof -
  have "(1 - x) * y \<le> 0" using x(2) y(2) by (intro mult_nonneg_nonpos) simp_all
  then have "y \<le> x * y" by (simp add: algebra_simps)
  then have lo: "- 31 \<le> x * y" using y(1) by linarith
  have "- (2 ^ 34) \<le> (- 31 :: real)" by simp
  with representable64_bounds(1) obtain t where
    "round64 (x * y) = Finite64 t" "- 31 \<le> t" "t \<le> u"
    using round64_between [OF _ _ u lo le] by blast
  then show ?thesis by simp
qed

lemma entropy_step:
  assumes b: "representable b" "representable64 b" "b \<le> 0"
    and e: "- 8589934592 \<le> e" "e \<le> b"
    and x: "0 \<le> x" "x \<le> 1" and y: "- 31 \<le> y" "y \<le> 0"
  shows "\<exists>e'. float_of_double (dadd (Finite64 e) (dmul (Finite64 x) (Finite64 y))) = Finite e'
           \<and> - 8589934592 \<le> e' \<and> e' \<le> b"
proof -
  have "x * y \<le> 0" using x(1) y(2) by (rule mult_nonneg_nonpos)
  from entropy_product [OF representable64_0 order_refl x y this] obtain t where
    t: "dmul (Finite64 x) (Finite64 y) = Finite64 t" "- 31 \<le> t" "t \<le> 0" by blast
  have "e + t \<le> b" using e(2) t(3) by linarith
  from entropy_sum_step [OF b t(2) e(1) this] show ?thesis unfolding t(1) .
qed

lemma tiny_representable:
  "representable (- (2 powi (- 55)))" "representable64 (- (2 powi (- 55)))"
  "- (2 powi (- 55)) \<le> (0::real)"
proof -
  show "representable (- (2 powi (- 55)))"
    by (rule representable_minus, rule representable_powi) simp_all
  show "representable64 (- (2 powi (- 55)))"
    by (rule representable64_minus, rule representable64_powi) simp_all
  show "- (2 powi (- 55)) \<le> (0::real)" by simp
qed

lemma entropy_step_strict:
  assumes e: "- 8589934592 \<le> e" "e \<le> 0"
    and x: "2 powi (- 30) \<le> x" "x \<le> 1" and y: "- 31 \<le> y" "y \<le> - (2 powi (- 25))"
  shows "\<exists>e'. float_of_double (dadd (Finite64 e) (dmul (Finite64 x) (Finite64 y))) = Finite e'
           \<and> - 8589934592 \<le> e' \<and> e' \<le> - (2 powi (- 55))"
proof -
  have x0: "0 \<le> x" using x(1) by (rule order_trans [rotated]) simp
  have y0: "y \<le> 0" using y(2) by (rule order_trans) simp
  have "x * y \<le> 2 powi (- 30) * y" using x(1) y0 by (rule mult_right_mono_neg)
  also have "\<dots> \<le> 2 powi (- 30) * - (2 powi (- 25))" using y(2) by (intro mult_left_mono) simp_all
  also have "\<dots> = - (2 powi (- 55))" by (simp flip: power_int_add)
  finally have "x * y \<le> - (2 powi (- 55))" .
  from entropy_product [OF tiny_representable(2,3) x0 x(2) y(1) y0 this] obtain t where
    t: "dmul (Finite64 x) (Finite64 y) = Finite64 t" "- 31 \<le> t" "t \<le> - (2 powi (- 55))" by blast
  have "e + t \<le> - (2 powi (- 55))" using e(2) t(3) by linarith
  from entropy_sum_step [OF tiny_representable t(2) e(1) this] show ?thesis unfolding t(1) .
qed

lemma entropy_loop_bounds:
  assumes good: "\<forall>(l, p)\<in>set m. \<exists>x y. p = Finite x \<and> 0 < x \<and> x \<le> 1
        \<and> log2 (Finite64 x) = Finite64 y \<and> - 31 \<le> y \<and> y \<le> 0"
    and b: "representable b" "representable64 b" "b \<le> 0"
  shows "- 8589934592 \<le> e \<Longrightarrow> e \<le> b \<Longrightarrow>
    \<exists>e'. entropy_loop log2 m (Finite e) = Finite e' \<and> - 8589934592 \<le> e' \<and> e' \<le> b"
  using good
proof (induction m arbitrary: e)
  case Nil
  then show ?case by simp
next
  case (Cons a m)
  obtain l p where a: "a = (l, p)" by (cases a)
  from Cons.prems(3) a obtain x y where p: "p = Finite x" "0 < x" "x \<le> 1"
    "log2 (Finite64 x) = Finite64 y" "- 31 \<le> y" "y \<le> 0"
    by auto
  have x0: "0 \<le> x" using p(2) by simp
  from entropy_step [OF b Cons.prems(1,2) x0 p(3) p(5,6)] obtain e1 where
    e1: "float_of_double (dadd (Finite64 e) (dmul (Finite64 x) (Finite64 y))) = Finite e1"
      "- 8589934592 \<le> e1" "e1 \<le> b"
    by blast
  have rest: "\<forall>(l, p)\<in>set m. \<exists>x y. p = Finite x \<and> 0 < x \<and> x \<le> 1
        \<and> log2 (Finite64 x) = Finite64 y \<and> - 31 \<le> y \<and> y \<le> 0"
    using Cons.prems(3) by simp
  have "entropy_loop log2 (a # m) (Finite e)
      = entropy_loop log2 m
          (float_of_double (dadd (Finite64 e) (dmul (Finite64 x) (Finite64 y))))"
    using p(2) by (simp add: a p(1) p(4))
  then have "entropy_loop log2 (a # m) (Finite e) = entropy_loop log2 m (Finite e1)"
    by (simp only: e1(1))
  with Cons.IH [OF e1(2,3) rest] show ?case by simp
qed

lemma entropy_loop_strict:
  assumes good: "\<forall>(l, p)\<in>set m. \<exists>x y. p = Finite x \<and> 0 < x \<and> x \<le> 1
        \<and> log2 (Finite64 x) = Finite64 y \<and> - 31 \<le> y \<and> y \<le> 0"
    and strict: "\<exists>(l, p)\<in>set m. \<exists>x y. p = Finite x \<and> 2 powi (- 30) \<le> x
        \<and> log2 (Finite64 x) = Finite64 y \<and> y \<le> - (2 powi (- 25))"
  shows "- 8589934592 \<le> e \<Longrightarrow> e \<le> 0 \<Longrightarrow>
    \<exists>e'. entropy_loop log2 m (Finite e) = Finite e' \<and> - 8589934592 \<le> e'
        \<and> e' \<le> - (2 powi (- 55))"
  using good strict
proof (induction m arbitrary: e)
  case Nil
  then show ?case by simp
next
  case (Cons a m)
  obtain l p where a: "a = (l, p)" by (cases a)
  from Cons.prems(3) a obtain x y where p: "p = Finite x" "0 < x" "x \<le> 1"
    "log2 (Finite64 x) = Finite64 y" "- 31 \<le> y" "y \<le> 0"
    by auto
  have x0: "0 \<le> x" using p(2) by simp
  have rest: "\<forall>(l, p)\<in>set m. \<exists>x y. p = Finite x \<and> 0 < x \<and> x \<le> 1
        \<and> log2 (Finite64 x) = Finite64 y \<and> - 31 \<le> y \<and> y \<le> 0"
    using Cons.prems(3) by simp
  have run: "entropy_loop log2 (a # m) (Finite e)
      = entropy_loop log2 m
          (float_of_double (dadd (Finite64 e) (dmul (Finite64 x) (Finite64 y))))"
    using p(2) by (simp add: a p(1) p(4))
  show ?case
  proof (cases "2 powi (- 30) \<le> x \<and> y \<le> - (2 powi (- 25))")
    case True
    from entropy_step_strict [OF Cons.prems(1,2) _ p(3) p(5)] True obtain e1 where
      e1: "float_of_double (dadd (Finite64 e) (dmul (Finite64 x) (Finite64 y))) = Finite e1"
        "- 8589934592 \<le> e1" "e1 \<le> - (2 powi (- 55))"
      by blast
    from entropy_loop_bounds [OF rest tiny_representable e1(2,3)] show ?thesis
      unfolding run e1(1) .
  next
    case False
    have "\<exists>(l, p)\<in>set m. \<exists>x y. p = Finite x \<and> 2 powi (- 30) \<le> x
        \<and> log2 (Finite64 x) = Finite64 y \<and> y \<le> - (2 powi (- 25))"
      using Cons.prems(4) False p(1,4) unfolding a by auto
    moreover
    from entropy_step [OF representable_0 representable64_0 order_refl Cons.prems(1,2) x0 p(3) p(5,6)]
    obtain e1 where
      e1: "float_of_double (dadd (Finite64 e) (dmul (Finite64 x) (Finite64 y))) = Finite e1"
        "- 8589934592 \<le> e1" "e1 \<le> 0"
      by blast
    ultimately show ?thesis using Cons.IH [OF e1(2,3) rest] unfolding run e1(1) by blast
  qed
qed

lemma library_log2:
  assumes lib: "\<forall>x. representable x \<and> 2 powi (- 30) \<le> x \<and> x \<le> 1 \<longrightarrow>
        (\<exists>y. log2 (Finite64 x) = Finite64 y \<and> \<bar>y - log 2 x\<bar> \<le> \<bar>log 2 x\<bar> / 2 ^ 40)"
    and x: "representable x" "2 powi (- 30) \<le> x" "x \<le> 1"
  shows "\<exists>y. log2 (Finite64 x) = Finite64 y \<and> - 31 \<le> y \<and> y \<le> 0
           \<and> (x = 1 \<longrightarrow> y = 0) \<and> (x < 1 \<longrightarrow> y \<le> - (2 powi (- 25)))
           \<and> x * log 2 x - 1 / 2 ^ 35 \<le> x * y \<and> x * y \<le> x * log 2 x + 1 / 2 ^ 35"
proof -
  let ?v = "log 2 x"
  from lib x obtain y where y: "log2 (Finite64 x) = Finite64 y" "\<bar>y - ?v\<bar> \<le> \<bar>?v\<bar> / 2 ^ 40"
    by blast
  have v: "- 30 \<le> ?v" "?v \<le> 0" using x(2,3) by (rule log2_mass_range)+
  have x0: "0 \<le> x" using x(2) by (rule order_trans [rotated]) simp
  have "\<bar>?v\<bar> = - ?v" using v(2) by simp
  then have "\<bar>y - ?v\<bar> \<le> - ?v / 1099511627776" using y(2) by simp
  then have d: "?v + ?v / 1099511627776 \<le> y" "y \<le> ?v - ?v / 1099511627776" by linarith+
  have 1: "- 31 \<le> y" using d(1) v(1) by linarith
  have 2: "y \<le> 0" using d(2) v(2) by linarith
  have 3: "y = 0" if "x = 1"
  proof -
    have "?v = 0" using that by simp
    then show ?thesis using d by simp
  qed
  have 4: "y \<le> - (2 powi (- 25))" if "x < 1"
  proof -
    have "x \<le> 1 - 1 / 2 ^ 24" using x(1) that by (rule representable_below_1)
    moreover have "0 < x" using x(2) by (rule less_le_trans [rotated]) simp
    ultimately have "?v \<le> - (1 / 2 ^ 24)" by (intro log2_below_1)
    then have "?v \<le> - (1 / 16777216)" by simp
    then have "y \<le> - (1 / 33554432)" using d(2) by linarith
    moreover have "(2::real) powi (- 25) = 1 / 33554432" by (simp add: power_int_minus)
    ultimately show ?thesis by simp
  qed
  have "\<bar>y - ?v\<bar> \<le> 1 / 34359738368" using d v by linarith
  then have "x * \<bar>y - ?v\<bar> \<le> 1 * (1 / 34359738368)" using x0 x(3) by (intro mult_mono) simp_all
  moreover have "x * \<bar>y - ?v\<bar> = \<bar>x * y - x * ?v\<bar>"
    using x0 by (simp add: abs_mult flip: right_diff_distrib)
  ultimately have "\<bar>x * y - x * ?v\<bar> \<le> 1 / 34359738368" by simp
  then have "x * ?v - 1 / 34359738368 \<le> x * y" "x * y \<le> x * ?v + 1 / 34359738368"
    by linarith+
  then have 5: "x * ?v - 1 / 2 ^ 35 \<le> x * y" "x * y \<le> x * ?v + 1 / 2 ^ 35" by simp_all
  from y(1) 1 2 3 4 5 show ?thesis by blast
qed

lemma log2_correctly_rounded_accurate:
  assumes x: "representable x" "2 powi (- 30) \<le> x" "x \<le> 1"
  shows "\<exists>y. log2_correctly_rounded (Finite64 x) = Finite64 y
           \<and> \<bar>y - log 2 x\<bar> \<le> \<bar>log 2 x\<bar> / 2 ^ 40"
proof -
  let ?v = "log 2 x"
  have x0: "0 < x" using x(2) by (rule less_le_trans [rotated]) simp
  have v: "- 30 \<le> ?v" "?v \<le> 0" using x(2,3) by (rule log2_mass_range)+
  then have "\<bar>?v\<bar> \<le> 30" by (simp add: abs_le_iff)
  also have "(30::real) < 2 ^ 1023" by simp
  finally have fin: "round64 ?v = Finite64 (round_to_grid64 ?v)" by (rule round64_finite)
  have "\<bar>round_to_grid64 ?v - ?v\<bar> \<le> \<bar>?v\<bar> / 2 ^ 40"
  proof (cases "x = 1")
    case True
    then have "?v = 0" by simp
    then show ?thesis using round_to_grid64_fixed [OF representable64_0] by simp
  next
    case False
    then have "x < 1" using x(3) by simp
    with x(1) have "x \<le> 1 - 1 / 2 ^ 24" by (rule representable_below_1)
    with x0 have "?v \<le> - (1 / 2 ^ 24)" by (rule log2_below_1)
    then have "1 / 2 ^ 24 \<le> \<bar>?v\<bar>" by linarith
    moreover have "(2::real) powi (- 1022) \<le> 2 powi (- 24)" by (rule powi_mono) simp
    then have "(2::real) powi (- 1022) \<le> 1 / 2 ^ 24" by (simp add: power_int_minus field_simps)
    ultimately have "2 powi (- 1022) \<le> \<bar>?v\<bar>" by (rule order_trans [rotated])
    then have "\<bar>round_to_grid64 ?v - ?v\<bar> \<le> \<bar>?v\<bar> / 2 ^ 53" by (rule round_to_grid64_relative)
    also have "\<dots> \<le> \<bar>?v\<bar> / 2 ^ 40" by (intro divide_left_mono) simp_all
    finally show ?thesis .
  qed
  then show ?thesis using x0 fin by simp
qed

lemma round64_near:
  assumes "- 64 < v" "v < 64"
  shows "\<exists>r. round64 v = Finite64 r \<and> v - 1 / 281474976710656 \<le> r
           \<and> r \<le> v + 1 / 281474976710656"
proof -
  have a: "\<bar>v\<bar> < 64" using assms by simp
  then have "\<bar>v\<bar> < 2 powi 6" by simp
  then have "\<bar>round_to_grid64 v - v\<bar> \<le> 2 powi (6 - 54)"
    by (rule round_to_grid64_error_below) simp
  moreover have "(2::real) powi (6 - 54) = 1 / 281474976710656" by (simp add: power_int_minus)
  ultimately have "\<bar>round_to_grid64 v - v\<bar> \<le> 1 / 281474976710656" by simp
  then have "v - 1 / 281474976710656 \<le> round_to_grid64 v
      \<and> round_to_grid64 v \<le> v + 1 / 281474976710656"
    by linarith
  moreover have "\<bar>v\<bar> < 2 ^ 1023" using a by (rule less_trans) simp
  then have "round64 v = Finite64 (round_to_grid64 v)" by (rule round64_finite)
  ultimately show ?thesis by blast
qed

lemma round32_near:
  assumes "- 64 < v" "v < 64"
  shows "\<exists>r. round32 v = Finite r \<and> v - 1 / 524288 \<le> r \<and> r \<le> v + 1 / 524288"
proof -
  have a: "\<bar>v\<bar> < 64" using assms by simp
  then have "\<bar>v\<bar> < 2 powi 6" by simp
  then have "\<bar>round_to_grid v - v\<bar> \<le> 2 powi (6 - 25)"
    by (rule round_to_grid_error_below) simp
  moreover have "(2::real) powi (6 - 25) = 1 / 524288" by (simp add: power_int_minus)
  ultimately have "\<bar>round_to_grid v - v\<bar> \<le> 1 / 524288" by simp
  then have "v - 1 / 524288 \<le> round_to_grid v \<and> round_to_grid v \<le> v + 1 / 524288"
    by linarith
  moreover have "\<bar>v\<bar> < 2 ^ 127" using a by (rule less_trans) simp
  then have "round32 v = Finite (round_to_grid v)" by (rule round32_finite)
  ultimately show ?thesis by blast
qed

lemma entropy_spec_Nil [simp]: "entropy_spec [] = 0"
  by (simp add: entropy_spec_def)

lemma entropy_spec_Cons:
  "0 < x \<Longrightarrow> entropy_spec ((l, Finite x) # m) = - (x * log 2 x) + entropy_spec m"
  by (simp add: entropy_spec_def)

lemma entropy_spec_nonneg:
  "\<forall>(l, p)\<in>set m. \<exists>x. p = Finite x \<and> 0 < x \<and> x \<le> 1 \<Longrightarrow> 0 \<le> entropy_spec m"
proof (induction m)
  case Nil
  then show ?case by simp
next
  case (Cons a m)
  obtain l p where a: "a = (l, p)" by (cases a)
  from Cons.prems a obtain x where p: "p = Finite x" "0 < x" "x \<le> 1" by auto
  have "log 2 x \<le> 0" using p(2,3) by simp
  then have "x * log 2 x \<le> 0" using p(2) by (intro mult_nonneg_nonpos) simp_all
  moreover have "0 \<le> entropy_spec m" using Cons by simp
  ultimately show ?case by (simp add: a p(1) entropy_spec_Cons [OF p(2)])
qed

lemma entropy_accurate_step:
  assumes x: "0 < x" "x \<le> 1"
    and y: "x * log 2 x - 1 / 2 ^ 35 \<le> x * y" "x * y \<le> x * log 2 x + 1 / 2 ^ 35"
    and pre: "\<bar>e\<bar> - x * log 2 x + 1 / 2 ^ 18 \<le> 63"
  shows "\<exists>e1. float_of_double (dadd (Finite64 e) (dmul (Finite64 x) (Finite64 y))) = Finite e1
           \<and> e + x * log 2 x - 1 / 2 ^ 18 \<le> e1 \<and> e1 \<le> e + x * log 2 x + 1 / 2 ^ 18"
proof -
  define w where "w = x * log 2 x"
  define p where "p = x * y"
  have "log 2 x \<le> 0" using x by simp
  then have w0: "w \<le> 0" unfolding w_def using x(1) by (intro mult_nonneg_nonpos) simp_all
  have e: "- 63 + 1 / 262144 - w \<le> e" "e \<le> 63 - 1 / 262144 + w"
    using pre unfolding w_def [symmetric] by simp_all
  have pb: "w - 1 / 34359738368 \<le> p" "p \<le> w + 1 / 34359738368"
    using y unfolding w_def [symmetric] p_def [symmetric] by simp_all
  have "- 64 < p" "p < 64" using pb e w0 by linarith+
  from round64_near [OF this] obtain t where
    t: "round64 p = Finite64 t" "p - 1 / 281474976710656 \<le> t" "t \<le> p + 1 / 281474976710656"
    by blast
  have tw: "w - 1 / 17179869184 \<le> t" "t \<le> w + 1 / 17179869184" using t(2,3) pb by linarith+
  have "- 64 < e + t" "e + t < 64" using tw e w0 by linarith+
  from round64_near [OF this] obtain s where
    s: "round64 (e + t) = Finite64 s" "e + t - 1 / 281474976710656 \<le> s"
      "s \<le> e + t + 1 / 281474976710656"
    by blast
  have sw: "e + w - 1 / 8589934592 \<le> s" "s \<le> e + w + 1 / 8589934592"
    using s(2,3) tw by linarith+
  have "- 64 < s" "s < 64" using sw e w0 by linarith+
  from round32_near [OF this] obtain e1 where
    e1: "round32 s = Finite e1" "s - 1 / 524288 \<le> e1" "e1 \<le> s + 1 / 524288"
    by blast
  have "e + w - 1 / 262144 \<le> e1" "e1 \<le> e + w + 1 / 262144" using e1(2,3) sw by linarith+
  then have "e + x * log 2 x - 1 / 2 ^ 18 \<le> e1 \<and> e1 \<le> e + x * log 2 x + 1 / 2 ^ 18"
    unfolding w_def by simp
  moreover have "float_of_double (dadd (Finite64 e) (dmul (Finite64 x) (Finite64 y))) = Finite e1"
    by (simp add: p_def [symmetric] t(1) s(1) e1(1))
  ultimately show ?thesis by blast
qed

lemma entropy_loop_accurate:
  assumes good: "\<forall>(l, p)\<in>set m. \<exists>x y. p = Finite x \<and> 0 < x \<and> x \<le> 1
        \<and> log2 (Finite64 x) = Finite64 y
        \<and> x * log 2 x - 1 / 2 ^ 35 \<le> x * y \<and> x * y \<le> x * log 2 x + 1 / 2 ^ 35"
  shows "\<bar>e\<bar> + entropy_spec m + real (length m) / 2 ^ 18 \<le> 63 \<Longrightarrow>
    \<exists>e'. entropy_loop log2 m (Finite e) = Finite e'
        \<and> \<bar>e' - (e - entropy_spec m)\<bar> \<le> real (length m) / 2 ^ 18"
  using good
proof (induction m arbitrary: e)
  case Nil
  then show ?case by simp
next
  case (Cons a m)
  obtain l p where a: "a = (l, p)" by (cases a)
  from Cons.prems(2) a obtain x y where p: "p = Finite x" "0 < x" "x \<le> 1"
    "log2 (Finite64 x) = Finite64 y"
    "x * log 2 x - 1 / 2 ^ 35 \<le> x * y" "x * y \<le> x * log 2 x + 1 / 2 ^ 35"
    by auto
  define w where "w = x * log 2 x"
  define n where "n = real (length m)"
  define S where "S = entropy_spec m"
  have rest: "\<forall>(l, p)\<in>set m. \<exists>x y. p = Finite x \<and> 0 < x \<and> x \<le> 1
        \<and> log2 (Finite64 x) = Finite64 y
        \<and> x * log 2 x - 1 / 2 ^ 35 \<le> x * y \<and> x * y \<le> x * log 2 x + 1 / 2 ^ 35"
    using Cons.prems(2) by simp
  then have "\<forall>(l, p)\<in>set m. \<exists>x. p = Finite x \<and> 0 < x \<and> x \<le> 1" by fastforce
  then have S0: "0 \<le> S" unfolding S_def by (rule entropy_spec_nonneg)
  have n0: "0 \<le> n" by (simp add: n_def)
  have spec: "entropy_spec (a # m) = - w + S"
    by (simp add: a p(1) entropy_spec_Cons [OF p(2)] w_def S_def)
  have len: "real (length (a # m)) = n + 1" by (simp add: n_def)
  have pre: "\<bar>e\<bar> - w + S + n / 262144 + 1 / 262144 \<le> 63"
    using Cons.prems(1) unfolding spec len by (simp add: add_divide_distrib)
  then have "\<bar>e\<bar> - w + 1 / 262144 \<le> 63" using S0 n0 by linarith
  then have "\<bar>e\<bar> - x * log 2 x + 1 / 2 ^ 18 \<le> 63" by (simp add: w_def)
  from entropy_accurate_step [OF p(2,3) p(5,6) this] obtain e1 where
    e1: "float_of_double (dadd (Finite64 e) (dmul (Finite64 x) (Finite64 y))) = Finite e1"
      "e + x * log 2 x - 1 / 2 ^ 18 \<le> e1" "e1 \<le> e + x * log 2 x + 1 / 2 ^ 18"
    by blast
  have b1: "e + w - 1 / 262144 \<le> e1" "e1 \<le> e + w + 1 / 262144"
    using e1(2,3) by (simp_all add: w_def)
  have "log 2 x \<le> 0" using p(2,3) by simp
  then have w0: "w \<le> 0" unfolding w_def using p(2) by (intro mult_nonneg_nonpos) simp_all
  have "\<bar>e1\<bar> \<le> \<bar>e\<bar> - w + 1 / 262144" using b1 w0 by linarith
  then have "\<bar>e1\<bar> + S + n / 262144 \<le> 63" using pre by linarith
  then have "\<bar>e1\<bar> + entropy_spec m + real (length m) / 2 ^ 18 \<le> 63"
    by (simp add: S_def n_def)
  from Cons.IH [OF this rest] obtain e' where
    e': "entropy_loop log2 m (Finite e1) = Finite e'"
      "\<bar>e' - (e1 - entropy_spec m)\<bar> \<le> real (length m) / 2 ^ 18"
    by blast
  have b2: "\<bar>e' - (e1 - S)\<bar> \<le> n / 262144" using e'(2) by (simp add: S_def n_def)
  have "entropy_loop log2 (a # m) (Finite e)
      = entropy_loop log2 m
          (float_of_double (dadd (Finite64 e) (dmul (Finite64 x) (Finite64 y))))"
    using p(2) by (simp add: a p(1) p(4))
  then have run: "entropy_loop log2 (a # m) (Finite e) = Finite e'" by (simp only: e1(1) e'(1))
  have "\<bar>e' - (e - (- w + S))\<bar> \<le> n / 262144 + 1 / 262144" using b1 b2 by linarith
  then have "\<bar>e' - (e - entropy_spec (a # m))\<bar> \<le> real (length (a # m)) / 2 ^ 18"
    unfolding spec len by (simp add: add_divide_distrib)
  with run show ?case by blast
qed

lemma pmf_result:
  fixes h :: "'label::linorder Histogram"
  assumes keys: "sorted_wrt (<) (map fst (get_bins h))"
    and run: "ProbabilityMassFunction h = Inr m"
  shows "\<forall>(l, n)\<in>set (get_bins h). fge (bin_mass n (get_count h)) SMALL_EPSILON"
    "m = map (\<lambda>(l, n). (l, bin_mass n (get_count h))) (get_bins h)"
proof -
  show ok: "\<forall>(l, n)\<in>set (get_bins h). fge (bin_mass n (get_count h)) SMALL_EPSILON"
  proof (rule ccontr)
    assume "\<not> (\<forall>(l, n)\<in>set (get_bins h). fge (bin_mass n (get_count h)) SMALL_EPSILON)"
    then have "\<exists>(l, n)\<in>set (get_bins h). \<not> fge (bin_mass n (get_count h)) SMALL_EPSILON"
      by (simp add: case_prod_unfold)
    then have "masses_loop (get_bins h) (get_count h) [] = Inl AssertionFailure"
      by (rule masses_loop_fails)
    then show False using run by (simp add: ProbabilityMassFunction_def)
  qed
  have "masses_loop (get_bins h) (get_count h) []
      = Inr ([] @ map (\<lambda>(l, n). (l, bin_mass n (get_count h))) (get_bins h))"
    using keys ok by (intro masses_loop_sorted) simp_all
  then show "m = map (\<lambda>(l, n). (l, bin_mass n (get_count h))) (get_bins h)"
    using run by (simp add: ProbabilityMassFunction_def)
qed

lemma bin_le_sum:
  "(l, n) \<in> set bins \<Longrightarrow> unat n \<le> (\<Sum>(l, n)\<leftarrow>bins. unat (n :: 64 word))"
  by (induction bins) auto

lemma masses_sum:
  assumes inv: "(\<Sum>(l, n)\<leftarrow>bins. unat n) = unat count"
    and pos: "0 < unat count"
    and ok: "\<forall>(l, n)\<in>set bins. fge (bin_mass n count) SMALL_EPSILON"
  shows "(\<Sum>(l, n)\<leftarrow>bins. float_value (bin_mass n count)) \<le> 1 + 1 / 10 ^ 6"
proof -
  let ?C = "of_nat (unat count) :: real"
  let ?f = "\<lambda>(l :: 'a, n). float_value (bin_mass n count)"
  let ?g = "\<lambda>(l :: 'a, n :: 64 word). (of_nat (unat n) :: real) / ?C"
  have "\<forall>b\<in>set bins. \<bar>?f b - ?g b\<bar> \<le> ?g b * (1 / 10 ^ 6)"
  proof
    fix b assume b: "b \<in> set bins"
    obtain l n where ln: "b = (l, n)" by (cases b)
    have "fge (bin_mass n count) SMALL_EPSILON" using ok b ln by auto
    from bin_mass_ok [OF pos this] obtain x where "bin_mass n count = Finite x"
      "\<bar>x - of_nat (unat n) / ?C\<bar> \<le> (of_nat (unat n) / ?C) / 10 ^ 6"
      by blast
    then show "\<bar>?f b - ?g b\<bar> \<le> ?g b * (1 / 10 ^ 6)" by (simp add: ln del: of_nat_unat)
  qed
  then have "\<bar>sum_list (map ?f bins) - sum_list (map ?g bins)\<bar>
      \<le> sum_list (map ?g bins) * (1 / 10 ^ 6)"
    by (rule sum_list_close)
  moreover have "sum_list (map ?g bins) = 1"
  proof -
    have "sum_list (map ?g bins) = of_nat (\<Sum>(l, n)\<leftarrow>bins. unat n) / ?C"
      by (rule sum_list_ratio)
    also have "\<dots> = ?C / ?C" by (simp only: inv)
    also have "\<dots> = 1" using pos by (simp del: of_nat_unat)
    finally show ?thesis .
  qed
  ultimately have "\<bar>sum_list (map ?f bins) - 1\<bar> \<le> 1 / 10 ^ 6" by simp
  then show ?thesis by linarith
qed

lemma entropy_spec_bound:
  "\<forall>(l, p)\<in>set m. \<exists>x. p = Finite x \<and> 2 powi (- 30) \<le> x \<and> x \<le> 1 \<Longrightarrow>
     entropy_spec m \<le> 30 * (\<Sum>(l, p)\<leftarrow>m. float_value p)"
proof (induction m)
  case Nil
  then show ?case by simp
next
  case (Cons a m)
  obtain l p where a: "a = (l, p)" by (cases a)
  from Cons.prems a obtain x where p: "p = Finite x" "2 powi (- 30) \<le> x" "x \<le> 1" by auto
  have x0: "0 < x" using p(2) by (rule less_le_trans [rotated]) simp
  have "- 30 \<le> log 2 x" using p(2,3) by (rule log2_mass_range)
  then have "x * (- 30) \<le> x * log 2 x" using x0 by (intro mult_left_mono) simp_all
  then have "- (x * log 2 x) \<le> 30 * x" by simp
  moreover have "entropy_spec m \<le> 30 * (\<Sum>(l, p)\<leftarrow>m. float_value p)" using Cons by simp
  ultimately show ?case by (simp add: a p(1) entropy_spec_Cons [OF x0])
qed

lemma entropy_loop_append:
  "entropy_loop log2 (m1 @ m2) e = entropy_loop log2 m2 (entropy_loop log2 m1 e)"
  by (induction m1 arbitrary: e) auto

lemma entropy_skips_zero:
  "calculate_entropy log2 (m1 @ (l, Finite 0) # m2) = calculate_entropy log2 (m1 @ m2)"
  by (simp add: calculate_entropy_def entropy_loop_append)

lemma entropy_one_label:
  assumes "log2 (Finite64 1) = Finite64 0"
  shows "calculate_entropy log2 [(l, Finite 1)] = Finite 0"
proof -
  have "round32 0 = Finite 0" using round32_representable [OF representable_0] .
  moreover have "round64 0 = Finite64 0" using round64_representable64 [OF representable64_0] .
  ultimately show ?thesis by (simp add: calculate_entropy_def assms)
qed

lemma pmf_mass_facts:
  fixes h :: "'label::linorder Histogram"
  assumes keys: "sorted_wrt (<) (map fst (get_bins h))"
    and inv: "(\<Sum>(l, n)\<leftarrow>get_bins h. unat n) = unat (get_count h)"
    and run: "ProbabilityMassFunction h = Inr m"
    and lib: "\<forall>x. representable x \<and> 2 powi (- 30) \<le> x \<and> x \<le> 1 \<longrightarrow>
        (\<exists>y. log2 (Finite64 x) = Finite64 y \<and> \<bar>y - log 2 x\<bar> \<le> \<bar>log 2 x\<bar> / 2 ^ 40)"
    and ne: "get_bins h \<noteq> []"
  shows "0 < unat (get_count h)"
    and "\<forall>(l, n)\<in>set (get_bins h). \<exists>x y. bin_mass n (get_count h) = Finite x
        \<and> 2 powi (- 30) \<le> x \<and> 0 < x \<and> x \<le> 1 \<and> representable x
        \<and> log2 (Finite64 x) = Finite64 y \<and> - 31 \<le> y \<and> y \<le> 0
        \<and> (x = 1 \<longrightarrow> y = 0) \<and> (x < 1 \<longrightarrow> y \<le> - (2 powi (- 25)))
        \<and> x * log 2 x - 1 / 2 ^ 35 \<le> x * y \<and> x * y \<le> x * log 2 x + 1 / 2 ^ 35"
proof -
  let ?c = "get_count h"
  let ?bins = "get_bins h"
  note ok = pmf_result(1) [OF keys run]
  from ne obtain l0 n0 bins' where b0: "?bins = (l0, n0) # bins'" by (cases ?bins) auto
  have le: "unat n \<le> unat ?c" if "(l, n) \<in> set ?bins" for l n
    using bin_le_sum [OF that] inv by simp
  have "fge (bin_mass n0 ?c) SMALL_EPSILON" using ok b0 by simp
  then have "0 < unat n0" by (rule bin_ok_positive)
  moreover have "unat n0 \<le> unat ?c" by (rule le [of l0]) (simp add: b0)
  ultimately show pos: "0 < unat ?c" by linarith
  show "\<forall>(l, n)\<in>set ?bins. \<exists>x y. bin_mass n ?c = Finite x
        \<and> 2 powi (- 30) \<le> x \<and> 0 < x \<and> x \<le> 1 \<and> representable x
        \<and> log2 (Finite64 x) = Finite64 y \<and> - 31 \<le> y \<and> y \<le> 0
        \<and> (x = 1 \<longrightarrow> y = 0) \<and> (x < 1 \<longrightarrow> y \<le> - (2 powi (- 25)))
        \<and> x * log 2 x - 1 / 2 ^ 35 \<le> x * y \<and> x * y \<le> x * log 2 x + 1 / 2 ^ 35"
  proof (clarify)
    fix l n assume b: "(l, n) \<in> set ?bins"
    have "fge (bin_mass n ?c) SMALL_EPSILON" using ok b by auto
    from mass_range [OF pos this le [OF b]] obtain x where
      x: "bin_mass n ?c = Finite x" "2 powi (- 30) \<le> x" "x \<le> 1" "representable x"
      by blast
    have "0 < x" using x(2) by (rule less_le_trans [rotated]) simp
    with library_log2 [OF lib x(4,2,3)] x
    show "\<exists>x y. bin_mass n ?c = Finite x
        \<and> 2 powi (- 30) \<le> x \<and> 0 < x \<and> x \<le> 1 \<and> representable x
        \<and> log2 (Finite64 x) = Finite64 y \<and> - 31 \<le> y \<and> y \<le> 0
        \<and> (x = 1 \<longrightarrow> y = 0) \<and> (x < 1 \<longrightarrow> y \<le> - (2 powi (- 25)))
        \<and> x * log 2 x - 1 / 2 ^ 35 \<le> x * y \<and> x * y \<le> x * log 2 x + 1 / 2 ^ 35"
      by blast
  qed
qed

lemma entropy_of_pmf_accurate:
  fixes h :: "'label::linorder Histogram"
  assumes keys: "sorted_wrt (<) (map fst (get_bins h))"
    and inv: "(\<Sum>(l, n)\<leftarrow>get_bins h. unat n) = unat (get_count h)"
    and run: "ProbabilityMassFunction h = Inr m"
    and lib: "\<forall>x. representable x \<and> 2 powi (- 30) \<le> x \<and> x \<le> 1 \<longrightarrow>
        (\<exists>y. log2 (Finite64 x) = Finite64 y \<and> \<bar>y - log 2 x\<bar> \<le> \<bar>log 2 x\<bar> / 2 ^ 40)"
    and len: "length m \<le> 2 ^ 23"
  shows "\<exists>H. calculate_entropy log2 m = Finite H
           \<and> \<bar>H - entropy_spec m\<bar> \<le> real (length m) / 2 ^ 18"
proof (cases "get_bins h = []")
  case True
  then have "m = []" using pmf_result(2) [OF keys run] by simp
  then show ?thesis by (simp add: calculate_entropy_def)
next
  case False
  let ?c = "get_count h"
  let ?bins = "get_bins h"
  note ok = pmf_result(1) [OF keys run]
  note m = pmf_result(2) [OF keys run]
  note pos = pmf_mass_facts(1) [OF keys inv run lib False]
  note mass = pmf_mass_facts(2) [OF keys inv run lib False]
  have good2: "\<forall>(l, p)\<in>set m. \<exists>x y. p = Finite x \<and> 0 < x \<and> x \<le> 1
      \<and> log2 (Finite64 x) = Finite64 y
      \<and> x * log 2 x - 1 / 2 ^ 35 \<le> x * y \<and> x * y \<le> x * log 2 x + 1 / 2 ^ 35"
  proof (clarify)
    fix l p assume "(l, p) \<in> set m"
    then obtain n where n: "(l, n) \<in> set ?bins" "p = bin_mass n ?c" unfolding m by auto
    from mass n show "\<exists>x y. p = Finite x \<and> 0 < x \<and> x \<le> 1
      \<and> log2 (Finite64 x) = Finite64 y
      \<and> x * log 2 x - 1 / 2 ^ 35 \<le> x * y \<and> x * y \<le> x * log 2 x + 1 / 2 ^ 35"
      by blast
  qed
  have good3: "\<forall>(l, p)\<in>set m. \<exists>x. p = Finite x \<and> 2 powi (- 30) \<le> x \<and> x \<le> 1"
  proof (clarify)
    fix l p assume "(l, p) \<in> set m"
    then obtain n where n: "(l, n) \<in> set ?bins" "p = bin_mass n ?c" unfolding m by auto
    from mass n show "\<exists>x. p = Finite x \<and> 2 powi (- 30) \<le> x \<and> x \<le> 1" by blast
  qed
  have "(\<Sum>(l, p)\<leftarrow>m. float_value p) = (\<Sum>(l, n)\<leftarrow>?bins. float_value (bin_mass n ?c))"
    unfolding m by (simp add: comp_def case_prod_unfold)
  also have "\<dots> \<le> 1 + 1 / 10 ^ 6" using inv pos ok by (rule masses_sum)
  finally have "30 * (\<Sum>(l, p)\<leftarrow>m. float_value p) \<le> 30 * (1 + 1 / 10 ^ 6)"
    by (intro mult_left_mono) simp_all
  with entropy_spec_bound [OF good3] have s: "entropy_spec m \<le> 31" by simp
  have "real (length m) \<le> 2 ^ 23" using len by (metis of_nat_le_iff of_nat_numeral of_nat_power)
  then have "real (length m) / 2 ^ 18 \<le> 2 ^ 23 / 2 ^ 18" by (rule divide_right_mono) simp
  then have "real (length m) / 2 ^ 18 \<le> 32" by simp
  with s have "\<bar>0\<bar> + entropy_spec m + real (length m) / 2 ^ 18 \<le> 63" by simp
  from entropy_loop_accurate [OF good2 this] obtain e' where
    e': "entropy_loop log2 m (Finite 0) = Finite e'"
      "\<bar>e' - (0 - entropy_spec m)\<bar> \<le> real (length m) / 2 ^ 18"
    by blast
  have "\<bar>- e' - entropy_spec m\<bar> = \<bar>e' - (0 - entropy_spec m)\<bar>" by linarith
  with e'(2) have "\<bar>- e' - entropy_spec m\<bar> \<le> real (length m) / 2 ^ 18" by (simp only:)
  moreover have "calculate_entropy log2 m = Finite (- e')"
    by (simp add: calculate_entropy_def e'(1))
  ultimately show ?thesis by blast
qed

text \<open>
  C2 (as amended). For every probability mass function that the constructor builds from a
  histogram whose counts sum to its count, and for every library function \<^verbatim>\<open>log2\<close> whose
  result at each binary32 value \<open>x\<close> from \<open>2\<^sup>-\<^sup>3\<^sup>0\<close> to 1 is finite and within the relative
  error \<open>2\<^sup>-\<^sup>4\<^sup>0\<close> of \<open>log2(x)\<close> (so that \<open>log2(1)\<close> is 0): \<open>calculate_entropy\<close> returns a
  finite value \<open>H\<close>; \<open>H\<close> is non-negative; \<open>H\<close> is 0 exactly when the function has no label,
  or has a single label, which carries mass 1; and when there are \<open>n \<le> 2\<^sup>2\<^sup>3\<close> labels, \<open>H\<close>
  differs from \<open>- \<Sum> p * log2(p)\<close> by at most \<open>n / 2\<^sup>1\<^sup>8\<close>. A label of mass zero contributes
  nothing to the result, wherever it stands.
\<close>

theorem calculate_entropy_of_pmf:
  fixes h :: "'label::linorder Histogram"
  assumes keys: "sorted_wrt (<) (map fst (get_bins h))"
    and inv: "(\<Sum>(l, n)\<leftarrow>get_bins h. unat n) = unat (get_count h)"
    and run: "ProbabilityMassFunction h = Inr m"
    and lib: "\<forall>x. representable x \<and> 2 powi (- 30) \<le> x \<and> x \<le> 1 \<longrightarrow>
        (\<exists>y. log2 (Finite64 x) = Finite64 y \<and> \<bar>y - log 2 x\<bar> \<le> \<bar>log 2 x\<bar> / 2 ^ 40)"
  shows "\<exists>H. calculate_entropy log2 m = Finite H \<and> 0 \<le> H
      \<and> (H = 0 \<longleftrightarrow> m = [] \<or> (\<exists>l. m = [(l, Finite 1)]))
      \<and> (length m \<le> 2 ^ 23 \<longrightarrow> \<bar>H - entropy_spec m\<bar> \<le> real (length m) / 2 ^ 18)
      \<and> (\<forall>m1 m2 l. calculate_entropy log2 (m1 @ (l, Finite 0) # m2)
            = calculate_entropy log2 (m1 @ m2))"
proof -
  let ?c = "get_count h"
  let ?bins = "get_bins h"
  note ok = pmf_result(1) [OF keys run]
  note m = pmf_result(2) [OF keys run]
  have skip: "\<forall>m1 m2 l. calculate_entropy log2 (m1 @ (l, Finite 0) # m2)
            = calculate_entropy log2 (m1 @ m2)"
    by (simp add: entropy_skips_zero)
  show ?thesis
  proof (cases "?bins = []")
    case True
    then have "m = []" using m by simp
    then have "calculate_entropy log2 m = Finite 0 \<and> (0::real) \<le> 0
      \<and> ((0::real) = 0 \<longleftrightarrow> m = [] \<or> (\<exists>l. m = [(l, Finite 1)]))
      \<and> (length m \<le> 2 ^ 23 \<longrightarrow> \<bar>0 - entropy_spec m\<bar> \<le> real (length m) / 2 ^ 18)"
      by (simp add: calculate_entropy_def)
    with skip show ?thesis by blast
  next
    case False
    then obtain l0 n0 bins' where b0: "?bins = (l0, n0) # bins'" by (cases ?bins) auto
    note pos = pmf_mass_facts(1) [OF keys inv run lib False]
    note mass = pmf_mass_facts(2) [OF keys inv run lib False]
    have good1: "\<forall>(l, p)\<in>set m. \<exists>x y. p = Finite x \<and> 0 < x \<and> x \<le> 1
        \<and> log2 (Finite64 x) = Finite64 y \<and> - 31 \<le> y \<and> y \<le> 0"
    proof (clarify)
      fix l p assume "(l, p) \<in> set m"
      then obtain n where n: "(l, n) \<in> set ?bins" "p = bin_mass n ?c" unfolding m by auto
      from mass n show "\<exists>x y. p = Finite x \<and> 0 < x \<and> x \<le> 1
        \<and> log2 (Finite64 x) = Finite64 y \<and> - 31 \<le> y \<and> y \<le> 0"
        by blast
    qed
    have "(- 8589934592 :: real) \<le> 0" by simp
    from entropy_loop_bounds [OF good1 representable_0 representable64_0 order_refl this order_refl]
    obtain e' where e': "entropy_loop log2 m (Finite 0) = Finite e'" "e' \<le> 0" by blast
    have H: "calculate_entropy log2 m = Finite (- e')" by (simp add: calculate_entropy_def e'(1))
    have nonneg: "0 \<le> - e'" using e'(2) by simp
    have zero: "- e' = 0 \<longleftrightarrow> m = [] \<or> (\<exists>l. m = [(l, Finite 1)])"
    proof (cases bins')
      case Nil
      then have "unat n0 = unat ?c" using inv b0 by simp
      then have "n0 = ?c" by (simp add: word_unat_eq_iff)
      then have one: "bin_mass n0 ?c = Finite 1" using mass_one [OF pos] by simp
      then have m1: "m = [(l0, Finite 1)]" unfolding m b0 Nil by simp
      from mass b0 one have "log2 (Finite64 1) = Finite64 0" by auto
      then have "calculate_entropy log2 m = Finite 0" unfolding m1 by (rule entropy_one_label)
      then have "- e' = 0" using H by simp
      then show ?thesis using m1 by simp
    next
      case (Cons b1 bins'')
      obtain l1 n1 where b1: "b1 = (l1, n1)" by (cases b1)
      have len: "m \<noteq> [] \<and> (\<forall>l. m \<noteq> [(l, Finite 1)])" unfolding m b0 Cons by simp
      have "unat n0 + unat n1 \<le> unat ?c" using inv unfolding b0 Cons b1 by simp
      then have "2 * unat n0 \<le> unat ?c \<or> 2 * unat n1 \<le> unat ?c" by linarith
      then obtain l n where n: "(l, n) \<in> set ?bins" "2 * unat n \<le> unat ?c"
        unfolding b0 Cons b1 by auto
      from mass n(1) obtain x y where
        x: "bin_mass n ?c = Finite x" "2 powi (- 30) \<le> x"
          "log2 (Finite64 x) = Finite64 y" "x < 1 \<longrightarrow> y \<le> - (2 powi (- 25))"
        by blast
      have "round_to_grid (size_value n / size_value ?c) \<le> 3 / 4" using pos n(2) by (rule mass_half)
      then have "x \<le> 3 / 4" using x(1) bin_mass_value [OF pos, of n] by simp
      then have "x < 1" by simp
      then have y: "y \<le> - (2 powi (- 25))" using x(4) by simp
      have "(l, Finite x) \<in> set m" unfolding m using n(1) x(1) by force
      then have strict: "\<exists>(l, p)\<in>set m. \<exists>x y. p = Finite x \<and> 2 powi (- 30) \<le> x
          \<and> log2 (Finite64 x) = Finite64 y \<and> y \<le> - (2 powi (- 25))"
        using x(2,3) y by blast
      have "(- 8589934592 :: real) \<le> 0" by simp
      from entropy_loop_strict [OF good1 strict this order_refl] e'(1)
      have "e' \<le> - (2 powi (- 55))" by simp
      moreover have "(0::real) < 2 powi (- 55)" by simp
      ultimately have "- e' \<noteq> 0" by linarith
      then show ?thesis using len by simp
    qed
    have accurate: "\<bar>- e' - entropy_spec m\<bar> \<le> real (length m) / 2 ^ 18" if "length m \<le> 2 ^ 23"
      using entropy_of_pmf_accurate [OF keys inv run lib that] H by auto
    from H nonneg zero accurate skip show ?thesis by blast
  qed
qed

lemma entropy_spec_3_1:
  "entropy_spec [(CHR ''A'', Finite (3 / 4)), (CHR ''B'', Finite (1 / 4))] = 2 - 3 / 4 * log 2 3"
proof -
  have "entropy_spec [(CHR ''A'', Finite (3 / 4)), (CHR ''B'', Finite (1 / 4))]
      = - (3 / 4 * (log 2 3 - 2) + 1 / 4 * (- 2))"
    by (simp add: entropy_spec_def log2_quarters)
  also have "\<dots> = 2 - 3 / 4 * log 2 3" by (simp add: field_simps)
  finally show ?thesis .
qed

lemma entropy_spec_3_1_irrational:
  "entropy_spec [(CHR ''A'', Finite (3 / 4)), (CHR ''B'', Finite (1 / 4))] \<notin> \<rat>"
proof
  assume "entropy_spec [(CHR ''A'', Finite (3 / 4)), (CHR ''B'', Finite (1 / 4))] \<in> \<rat>"
  then have r: "2 - 3 / 4 * log 2 3 \<in> \<rat>" by (simp only: entropy_spec_3_1)
  have "(2::real) \<in> \<rat>" by simp
  then have "2 - (2 - 3 / 4 * log 2 3) \<in> \<rat>" using r by (rule Rats_diff)
  moreover have "(4 / 3 :: real) \<in> \<rat>" by simp
  ultimately have "(2 - (2 - 3 / 4 * log 2 3)) * (4 / 3) \<in> \<rat>" by (rule Rats_mult)
  moreover have "(2 - (2 - 3 / 4 * log 2 3)) * (4 / 3) = log 2 3" by (simp add: field_simps)
  ultimately have "log 2 3 \<in> \<rat>" by (simp only:)
  then show False using log2_3_irrational by simp
qed

theorem calculate_entropy_of_pmf_witness:
  "\<exists>H. calculate_entropy log2_correctly_rounded
           [(CHR ''A'', Finite (3 / 4)), (CHR ''B'', Finite (1 / 4))] = Finite H
      \<and> 0 \<le> H \<and> H \<noteq> 0
      \<and> \<bar>H - entropy_spec [(CHR ''A'', Finite (3 / 4)), (CHR ''B'', Finite (1 / 4))]\<bar>
           \<le> 2 / 2 ^ 18"
proof -
  let ?h = "\<lparr>get_bins = [(CHR ''A'', 3 :: 64 word), (CHR ''B'', 1)], get_count = 4\<rparr>"
  let ?m = "[(CHR ''A'', Finite (3 / 4)), (CHR ''B'', Finite (1 / 4))]"
  have 1: "sorted_wrt (<) (map fst (get_bins ?h))" by simp
  have 2: "(\<Sum>(l, n)\<leftarrow>get_bins ?h. unat n) = unat (get_count ?h)" by simp
  have 3: "ProbabilityMassFunction ?h = Inr ?m" by (rule pmf_3_1)
  have 4: "\<forall>x. representable x \<and> 2 powi (- 30) \<le> x \<and> x \<le> 1 \<longrightarrow>
        (\<exists>y. log2_correctly_rounded (Finite64 x) = Finite64 y
           \<and> \<bar>y - log 2 x\<bar> \<le> \<bar>log 2 x\<bar> / 2 ^ 40)"
    using log2_correctly_rounded_accurate by blast
  from calculate_entropy_of_pmf [OF 1 2 3 4] obtain H where
    H: "calculate_entropy log2_correctly_rounded ?m = Finite H" "0 \<le> H"
      "H = 0 \<longleftrightarrow> ?m = [] \<or> (\<exists>l. ?m = [(l, Finite 1)])"
      "length ?m \<le> 2 ^ 23 \<longrightarrow> \<bar>H - entropy_spec ?m\<bar> \<le> real (length ?m) / 2 ^ 18"
    by blast
  from H(3) have "H \<noteq> 0" by simp
  moreover from H(4) have "\<bar>H - entropy_spec ?m\<bar> \<le> 2 / 2 ^ 18" by simp
  ultimately show ?thesis using H(1,2) by blast
qed

text \<open>
  The probability mass function of no labels, which the constructor builds from the
  histogram of no instances, has the entropy 0 although no label carries mass 1. And the
  result is a binary32 value: for the masses \<open>0.75\<close> and \<open>0.25\<close> it is not the irrational
  number \<open>- \<Sum> p * log2(p)\<close>.
\<close>

theorem entropy_of_no_label_counterexample:
  "ProbabilityMassFunction \<lparr>get_bins = ([] :: (char \<times> 64 word) list), get_count = 0\<rparr> = Inr []
   \<and> calculate_entropy log2_correctly_rounded ([] :: (char \<times> float32) list) = Finite 0
   \<and> ProbabilityMassFunction \<lparr>get_bins = [(CHR ''A'', 3), (CHR ''B'', 1)], get_count = 4\<rparr>
       = Inr [(CHR ''A'', Finite (3 / 4)), (CHR ''B'', Finite (1 / 4))]
   \<and> calculate_entropy log2_correctly_rounded
         [(CHR ''A'', Finite (3 / 4)), (CHR ''B'', Finite (1 / 4))]
       \<noteq> Finite (entropy_spec [(CHR ''A'', Finite (3 / 4)), (CHR ''B'', Finite (1 / 4))])"
proof -
  have 1: "ProbabilityMassFunction \<lparr>get_bins = ([] :: (char \<times> 64 word) list), get_count = 0\<rparr>
      = Inr []"
    by (simp add: ProbabilityMassFunction_def)
  have 2: "calculate_entropy log2_correctly_rounded ([] :: (char \<times> float32) list) = Finite 0"
    by (simp add: calculate_entropy_def)
  have 3: "calculate_entropy log2_correctly_rounded
         [(CHR ''A'', Finite (3 / 4)), (CHR ''B'', Finite (1 / 4))]
       \<noteq> Finite (entropy_spec [(CHR ''A'', Finite (3 / 4)), (CHR ''B'', Finite (1 / 4))])"
    using calculate_entropy_rational entropy_spec_3_1_irrational by blast
  from 1 2 pmf_3_1 3 show ?thesis by (intro conjI)
qed

section \<open>One label, and equally likely labels\<close>














end
